theory Spec2Isabelle
  imports Complex_Main "HOL-Library.Word" "HOL-Library.Signed_Division" "HOL-Library.Stream"
begin

section \<open>Machine arithmetic of the kernels\<close>

text \<open>
  The kernels compute with 32-bit \<open>int\<close>. Values are modelled as \<open>int\<close>; where an
  addition or an increment can leave the 32-bit range the two's complement wrap-around is
  written out with \<open>wrap32\<close>. C's \<open>%\<close> truncates toward zero: it is \<open>smod\<close> of
  \<open>HOL-Library.Signed_Division\<close>. A zero divisor traps in the source; the kernels are only
  run on worlds whose size components are positive.

  A \<open>double\<close> of the wraparound correction is the real number it stands for: the
  correction takes the integer part of a position away and puts it back, folded, and at the
  positions evaluated below every step is exact in doubles. A \<open>float\<close> is a value of the
  binary32 format, with its rounding (next section).
\<close>

definition wrap32 :: "int \<Rightarrow> int" where
  "wrap32 v = (v + 2 ^ 31) mod 2 ^ 32 - 2 ^ 31"

type_synonym int2 = "int \<times> int"
type_synonym double2 = "real \<times> real"

text \<open>The conversion \<open>(int)d\<close> of a double drops the fractional part (toward zero). It is
  undefined when the result is outside the range of \<open>int\<close>: there the conversion, and the
  function that makes it, has no value in the model.\<close>

definition to_int :: "real \<Rightarrow> int option" where
  "to_int d =
     (let t = (if 0 \<le> d then \<lfloor>d\<rfloor> else \<lceil>d\<rceil>)
      in if - (2 ^ 31) \<le> t \<and> t < 2 ^ 31 then Some t else None)"

section \<open>Single precision arithmetic\<close>

text \<open>
  A \<open>float\<close> is an IEEE 754 binary32 value: a finite number (a real that the format
  represents, \<open>Finite 0\<close> being \<open>+0\<close>), \<open>-0\<close>, an infinity or a NaN. An operation
  computes the exact result and rounds it to the nearest value of the format, ties to the one
  with an even significand (24 bits, exponents from \<open>-126\<close> to \<open>127\<close>, subnormal numbers
  below); a result that reaches \<open>2^128\<close> in magnitude after rounding is an infinity. Every
  operation of the source is rounded on its own: a product and the sum it goes into are not
  fused into one operation.
\<close>

datatype float32 = Finite real | NegZero | PInf | NInf | NaN

text \<open>Rounding to the nearest integer, ties to even.\<close>

definition round_even :: "real \<Rightarrow> int" where
  "round_even x =
     (let f = \<lfloor>x\<rfloor>; r = x - of_int f
      in if r < 1 / 2 then f else if 1 / 2 < r then f + 1 else if even f then f else f + 1)"

text \<open>The exponent \<open>e\<close> of a positive number, \<open>2^e \<le> x < 2^(e+1)\<close>, kept within the
  exponents of the format.\<close>

fun exponent_down :: "nat \<Rightarrow> real \<Rightarrow> int" where
  "exponent_down 0 x = 0"
| "exponent_down (Suc n) x = (if 1 \<le> x then 0 else exponent_down n (2 * x) - 1)"

fun exponent_up :: "nat \<Rightarrow> real \<Rightarrow> int" where
  "exponent_up 0 x = 0"
| "exponent_up (Suc n) x = (if x < 2 then 0 else exponent_up n (x / 2) + 1)"

definition exponent32 :: "real \<Rightarrow> int" where
  "exponent32 x = (if 1 \<le> x then exponent_up 127 x else exponent_down 126 x)"

text \<open>An exact result rounded to 24 significant bits (to a multiple of \<open>2^-149\<close> in the
  subnormal range).\<close>

definition round32 :: "real \<Rightarrow> real" where
  "round32 r =
     (let q = 2 powi (exponent32 \<bar>r\<bar> - 23)
      in of_int (round_even (r / q)) * q)"

text \<open>The float of an exact result that is not zero: it overflows to an infinity and
  underflows to the zero of its sign.\<close>

definition to_float32 :: "real \<Rightarrow> float32" where
  "to_float32 r =
     (let y = round32 r
      in if 2 ^ 128 \<le> \<bar>y\<bar> then (if 0 < r then PInf else NInf)
         else if y = 0 then (if r < 0 then NegZero else Finite 0)
         else Finite y)"

text \<open>The sign bit; whether a float is a number; its value when it is.\<close>

fun negative :: "float32 \<Rightarrow> bool" where
  "negative (Finite x) = (x < 0)"
| "negative NegZero = True"
| "negative PInf = False"
| "negative NInf = True"
| "negative NaN = False"

fun is_finite :: "float32 \<Rightarrow> bool" where
  "is_finite (Finite x) = True"
| "is_finite NegZero = True"
| "is_finite PInf = False"
| "is_finite NInf = False"
| "is_finite NaN = False"

fun fval :: "float32 \<Rightarrow> real" where
  "fval (Finite x) = x"
| "fval NegZero = 0"
| "fval PInf = 0"
| "fval NInf = 0"
| "fval NaN = 0"

definition zero_of :: "bool \<Rightarrow> float32" where
  "zero_of neg = (if neg then NegZero else Finite 0)"

definition inf_of :: "bool \<Rightarrow> float32" where
  "inf_of neg = (if neg then NInf else PInf)"

text \<open>Unary minus flips the sign bit.\<close>

fun fneg :: "float32 \<Rightarrow> float32" where
  "fneg (Finite x) = (if x = 0 then NegZero else Finite (- x))"
| "fneg NegZero = Finite 0"
| "fneg PInf = NInf"
| "fneg NInf = PInf"
| "fneg NaN = NaN"

text \<open>Addition: an exact sum of zero is \<open>+0\<close>, except \<open>-0 + -0 = -0\<close>; the sum of the two
  infinities is a NaN. Subtraction adds the negated operand.\<close>

definition fadd :: "float32 \<Rightarrow> float32 \<Rightarrow> float32" where
  "fadd a b =
     (if a = NaN \<or> b = NaN then NaN
      else if \<not> is_finite a then (if \<not> is_finite b \<and> a \<noteq> b then NaN else a)
      else if \<not> is_finite b then b
      else if fval a + fval b = 0 then (if a = NegZero \<and> b = NegZero then NegZero else Finite 0)
      else to_float32 (fval a + fval b))"

definition fsub :: "float32 \<Rightarrow> float32 \<Rightarrow> float32" where
  "fsub a b = fadd a (fneg b)"

text \<open>Multiplication and division: the sign of the result is the exclusive or of the signs;
  \<open>inf * 0\<close>, \<open>0 / 0\<close> and \<open>inf / inf\<close> are NaNs, and a number that is not zero divided
  by a zero is an infinity.\<close>

definition fmul :: "float32 \<Rightarrow> float32 \<Rightarrow> float32" where
  "fmul a b =
     (let neg = (negative a \<noteq> negative b) in
      if a = NaN \<or> b = NaN then NaN
      else if \<not> is_finite a \<or> \<not> is_finite b then
        (if (is_finite a \<and> fval a = 0) \<or> (is_finite b \<and> fval b = 0) then NaN else inf_of neg)
      else if fval a * fval b = 0 then zero_of neg
      else to_float32 (fval a * fval b))"

definition fdiv :: "float32 \<Rightarrow> float32 \<Rightarrow> float32" where
  "fdiv a b =
     (let neg = (negative a \<noteq> negative b) in
      if a = NaN \<or> b = NaN then NaN
      else if \<not> is_finite a then (if \<not> is_finite b then NaN else inf_of neg)
      else if \<not> is_finite b then zero_of neg
      else if fval b = 0 then (if fval a = 0 then NaN else inf_of neg)
      else if fval a = 0 then zero_of neg
      else to_float32 (fval a / fval b))"

text \<open>Comparisons: false with a NaN; the two zeros are equal.\<close>

definition flt :: "float32 \<Rightarrow> float32 \<Rightarrow> bool" where
  "flt a b =
     (if a = NaN \<or> b = NaN then False
      else if a = PInf \<or> b = NInf then False
      else if a = NInf \<or> b = PInf then True
      else fval a < fval b)"

definition fge :: "float32 \<Rightarrow> float32 \<Rightarrow> bool" where
  "fge a b =
     (if a = NaN \<or> b = NaN then False
      else if a = PInf \<or> b = NInf then True
      else if a = NInf \<or> b = PInf then False
      else fval b \<le> fval a)"

section \<open>Toroidal map (part 000)\<close>

subsection \<open>Wraparound correction\<close>

text \<open>One coordinate of \<open>mapCorrection_Kernel(int2&, int2 const&)\<close>:
  \<open>((pos % size) + size) % size\<close>.\<close>

definition mapCorrection_coord :: "int \<Rightarrow> int \<Rightarrow> int" where
  "mapCorrection_coord p s = wrap32 ((p smod s) + s) smod s"

definition mapCorrection_Kernel_int2 :: "int2 \<Rightarrow> int2 \<Rightarrow> int2" where
  "mapCorrection_Kernel_int2 pos size2 =
     (mapCorrection_coord (fst pos) (fst size2), mapCorrection_coord (snd pos) (snd size2))"

text \<open>\<open>mapCorrection_Kernel(double2&, int2 const&)\<close>: split into integer and fractional
  part, correct the integer part, add the fractional part back.\<close>

definition mapCorrection_Kernel_double2 :: "double2 \<Rightarrow> int2 \<Rightarrow> double2 option" where
  "mapCorrection_Kernel_double2 pos size2 =
     (case (to_int (fst pos), to_int (snd pos)) of
        (Some x, Some y) \<Rightarrow>
          let intPart = (x, y);
              fracPart = (fst pos - real_of_int (fst intPart), snd pos - real_of_int (snd intPart));
              intPart = mapCorrection_Kernel_int2 intPart size2
          in Some (real_of_int (fst intPart) + fst fracPart, real_of_int (snd intPart) + snd fracPart)
      | _ \<Rightarrow> None)"

subsection \<open>Reading the cell map\<close>

text \<open>
  \<open>CellCuda*\<close> and \<open>ClusterCuda*\<close> are addresses; \<open>nullptr\<close> is \<open>None\<close>. The map is
  an array of cell pointers, modelled as a store from index to entry; the cells themselves
  live in a store from address to \<open>CellCuda\<close>. Only the field the lookup reads is kept.
  \<open>LAYERS\<close> comes from \<open>CudaConstants.cuh\<close>, which is not part of the sources: it is a
  parameter.
\<close>

type_synonym cell_ptr = nat
type_synonym cluster_ptr = nat

record CellCuda =
  cluster :: cluster_ptr

type_synonym cell_store = "cell_ptr \<Rightarrow> CellCuda"
type_synonym cell_map = "int \<Rightarrow> cell_ptr option"

text \<open>The loop \<open>for (int i = 0; i < LAYERS; ++i)\<close> of \<open>readCellMapHelper_Kernel\<close>.\<close>

function readCellMapHelper_layers ::
  "nat \<Rightarrow> cell_store \<Rightarrow> cluster_ptr \<Rightarrow> cell_map \<Rightarrow> int \<Rightarrow> int \<Rightarrow> nat \<Rightarrow> cell_ptr option" where
  "readCellMapHelper_layers LAYERS cellStore clusterP cmap mapEntry mapSlice i =
     (if i < LAYERS then
        (case cmap (mapEntry + int i * mapSlice) of
           Some cell \<Rightarrow>
             if cluster (cellStore cell) \<noteq> clusterP then Some cell
             else readCellMapHelper_layers LAYERS cellStore clusterP cmap mapEntry mapSlice (i + 1)
         | None \<Rightarrow> readCellMapHelper_layers LAYERS cellStore clusterP cmap mapEntry mapSlice (i + 1))
      else None)"
  by pat_completeness auto
termination
  by (relation "measure (\<lambda>(LAYERS, cellStore, clusterP, cmap, mapEntry, mapSlice, i). LAYERS - i)") auto

definition readCellMapHelper_Kernel ::
  "nat \<Rightarrow> cell_store \<Rightarrow> int2 \<Rightarrow> cluster_ptr \<Rightarrow> cell_map \<Rightarrow> int2 \<Rightarrow> cell_ptr option" where
  "readCellMapHelper_Kernel LAYERS cellStore posInt clusterP cmap size2 =
     (let posInt = mapCorrection_Kernel_int2 posInt size2;
          mapEntry = fst posInt + snd posInt * fst size2;
          mapSlice = fst size2 * snd size2
      in readCellMapHelper_layers LAYERS cellStore clusterP cmap mapEntry mapSlice 0)"

text \<open>
  \<open>readCellMap_Kernel\<close>, statement by statement: \<open>posInt\<close> is a local copy that the
  function increments and decrements between its nine calls of the helper.
\<close>

definition readCellMap_Kernel ::
  "nat \<Rightarrow> cell_store \<Rightarrow> int2 \<Rightarrow> cluster_ptr \<Rightarrow> cell_map \<Rightarrow> int2 \<Rightarrow> cell_ptr option" where
  "readCellMap_Kernel LAYERS cellStore posInt clusterP cmap size2 =
     (let posInt = (wrap32 (fst posInt - 1), snd posInt);
          posInt = (fst posInt, wrap32 (snd posInt - 1))
      in case readCellMapHelper_Kernel LAYERS cellStore posInt clusterP cmap size2 of
           Some cell \<Rightarrow> Some cell
         | None \<Rightarrow>
     (let posInt = (wrap32 (fst posInt + 1), snd posInt)
      in case readCellMapHelper_Kernel LAYERS cellStore posInt clusterP cmap size2 of
           Some cell \<Rightarrow> Some cell
         | None \<Rightarrow>
     (let posInt = (wrap32 (fst posInt + 1), snd posInt)
      in case readCellMapHelper_Kernel LAYERS cellStore posInt clusterP cmap size2 of
           Some cell \<Rightarrow> Some cell
         | None \<Rightarrow>
     (let posInt = (fst posInt, wrap32 (snd posInt + 1));
          posInt = (wrap32 (fst posInt - 2), snd posInt)
      in case readCellMapHelper_Kernel LAYERS cellStore posInt clusterP cmap size2 of
           Some cell \<Rightarrow> Some cell
         | None \<Rightarrow>
     (let posInt = (fst posInt, wrap32 (snd posInt + 1))
      in case readCellMapHelper_Kernel LAYERS cellStore posInt clusterP cmap size2 of
           Some cell \<Rightarrow> Some cell
         | None \<Rightarrow>
     (let posInt = (fst posInt, wrap32 (snd posInt + 1))
      in case readCellMapHelper_Kernel LAYERS cellStore posInt clusterP cmap size2 of
           Some cell \<Rightarrow> Some cell
         | None \<Rightarrow>
     (let posInt = (fst posInt, wrap32 (snd posInt + 1));
          posInt = (wrap32 (fst posInt - 2), snd posInt)
      in case readCellMapHelper_Kernel LAYERS cellStore posInt clusterP cmap size2 of
           Some cell \<Rightarrow> Some cell
         | None \<Rightarrow>
     (let posInt = (fst posInt, wrap32 (snd posInt + 1))
      in case readCellMapHelper_Kernel LAYERS cellStore posInt clusterP cmap size2 of
           Some cell \<Rightarrow> Some cell
         | None \<Rightarrow>
     (let posInt = (fst posInt, wrap32 (snd posInt + 1))
      in case readCellMapHelper_Kernel LAYERS cellStore posInt clusterP cmap size2 of
           Some cell \<Rightarrow> Some cell
         | None \<Rightarrow> None)))))))))"

text \<open>
  The cells the nine calls read, as offsets from the query cell, in the order of the calls
  (before the wraparound correction the helper applies to each).
\<close>

definition readCellMap_offsets :: "int2 list" where
  "readCellMap_offsets =
     [(-1, -1), (0, -1), (1, -1), (-1, 0), (-1, 1), (-1, 2), (-3, 3), (-3, 4), (-3, 5)]"

text \<open>The 3x3 neighbourhood of a cell: both offsets in \<open>{-1, 0, 1}\<close>.\<close>

definition neighbourhood3x3 :: "int2 list" where
  "neighbourhood3x3 = [(dx, dy). dy \<leftarrow> [-1, 0, 1], dx \<leftarrow> [-1, 0, 1]]"

text \<open>The first entry a probe finds along a list of positions.\<close>

fun first_found :: "('a \<Rightarrow> 'b option) \<Rightarrow> 'a list \<Rightarrow> 'b option" where
  "first_found probe [] = None"
| "first_found probe (a # as) = (case probe a of Some b \<Rightarrow> Some b | None \<Rightarrow> first_found probe as)"

section \<open>Concurrent hash map (part 001)\<close>

text \<open>
  The map is the array \<open>_entries\<close> of \<open>_size\<close> entries, modelled as a list (\<open>_size\<close> is its
  length). One lane runs a call from its beginning to its end; what the other lanes did
  before is in the table the call starts from. A call that enters \<open>while (true) {}\<close>, or
  waits for a lock that no one is left to release, never returns: \<open>Spins\<close>. A division by a
  zero size or an index outside the array is \<open>Faults\<close>; the index \<open>_hash(key) % _size\<close> is
  negative when the hash is, and stays inside the array from then on.

  \<open>HashFunctor\<close> is declared in \<open>HashSet.cuh\<close>, which is not part of the sources: the hash
  function is a parameter, and so is the value-initialised \<open>Value()\<close>.
\<close>

datatype 'a outcome = Returns 'a | Spins | Faults

record ('k, 'v) Entry =
  e_who :: int
  e_free :: int \<comment> \<open>0 = free, 1 = used\<close>
  e_locked :: int \<comment> \<open>0 = unlocked, 1 = locked\<close>
  e_value :: 'v
  e_key :: 'k

definition setFree :: "int \<Rightarrow> ('k, 'v) Entry \<Rightarrow> int \<times> ('k, 'v) Entry" where
  "setFree v e = (let origValue = e_free e in (origValue, e\<lparr>e_free := v\<rparr>))"

definition getFree :: "('k, 'v) Entry \<Rightarrow> int" where
  "getFree e = e_free e"

definition setValue :: "'v \<Rightarrow> ('k, 'v) Entry \<Rightarrow> ('k, 'v) Entry" where
  "setValue v e = e\<lparr>e_value := v\<rparr>"

definition getValue :: "('k, 'v) Entry \<Rightarrow> 'v" where
  "getValue e = e_value e"

definition setKey :: "'k \<Rightarrow> ('k, 'v) Entry \<Rightarrow> ('k, 'v) Entry" where
  "setKey k e = e\<lparr>e_key := k\<rparr>"

definition getKey :: "('k, 'v) Entry \<Rightarrow> 'k" where
  "getKey e = e_key e"

definition initLock :: "('k, 'v) Entry \<Rightarrow> ('k, 'v) Entry" where
  "initLock e = e\<lparr>e_locked := 0\<rparr>"

text \<open>
  \<open>getLock\<close>: \<open>while (1 == atomicExch_block(&_locked, 1)) { ... }\<close>, then \<open>_who = parameter\<close>.
  The exchange returns the old value and stores 1; with the old value 1 the lane spins, and
  in a call run by one lane nothing ends the spinning.
\<close>

definition getLock :: "int \<Rightarrow> ('k, 'v) Entry \<Rightarrow> ('k, 'v) Entry outcome" where
  "getLock parameter e =
     (if e_locked e = 1 then Spins else Returns (e\<lparr>e_locked := 1, e_who := parameter\<rparr>))"

definition releaseLock :: "('k, 'v) Entry \<Rightarrow> ('k, 'v) Entry" where
  "releaseLock e = e\<lparr>e_who := 0, e_locked := 0\<rparr>"

text \<open>\<open>init_blockCall\<close>: the array comes uninitialised from the allocator (\<open>raw\<close>); every
  entry is set free and unlocked, keys and values stay as they were.\<close>

definition init_blockCall :: "('k, 'v) Entry list \<Rightarrow> ('k, 'v) Entry list" where
  "init_blockCall raw = map (\<lambda>e. (initLock (snd (setFree 0 e)))\<lparr>e_who := - 1\<rparr>) raw"

text \<open>
  The \<open>do ... while (1 == wasFree)\<close> loop of \<open>insertOrAssign\<close> together with the three
  statements after it. \<open>dummy\<close> counts the iterations; the function is entered with
  \<open>dummy = 0\<close>, so the first branch (a counter already past the size) is never taken.
\<close>

function insertOrAssign_loop ::
  "('k, 'v) Entry list \<Rightarrow> 'k \<Rightarrow> 'v \<Rightarrow> nat \<Rightarrow> nat \<Rightarrow> ('k, 'v) Entry list outcome" where
  "insertOrAssign_loop es key v index dummy =
     (if length es \<le> dummy then Spins
      else
        let dummy = dummy + 1 in
        if dummy = length es then Spins \<comment> \<open>\<open>printf(...); while (true) {}\<close>\<close>
        else if length es \<le> index then Faults
        else
          (case getLock 1 (es ! index) of
             Spins \<Rightarrow> Spins
           | Faults \<Rightarrow> Faults
           | Returns entry \<Rightarrow>
               let (wasFree, entry) = setFree 1 entry in
               if 1 = wasFree then
                 if getKey entry = key then
                   Returns (es[index := releaseLock (setValue v entry)])
                 else
                   insertOrAssign_loop (es[index := releaseLock entry]) key v
                     ((index + 1) mod length es) dummy
               else
                 Returns (es[index := releaseLock (setValue v (setKey key entry))])))"
  by pat_completeness auto
termination
  by (relation "measure (\<lambda>(es, key, v, index, dummy). length es - dummy)") auto

definition insertOrAssign ::
  "('k \<Rightarrow> int) \<Rightarrow> ('k, 'v) Entry list \<Rightarrow> 'k \<Rightarrow> 'v \<Rightarrow> ('k, 'v) Entry list outcome" where
  "insertOrAssign hash es key v =
     (if length es = 0 then Faults
      else
        let index = hash key smod int (length es) in
        if index < 0 then Faults else insertOrAssign_loop es key v (nat index) 0)"

text \<open>The \<open>for\<close> loop of \<open>contains\<close>; past the loop the function returns \<open>false\<close>.\<close>

function contains_loop ::
  "('k, 'v) Entry list \<Rightarrow> 'k \<Rightarrow> nat \<Rightarrow> nat \<Rightarrow> (bool \<times> ('k, 'v) Entry list) outcome" where
  "contains_loop es key index i =
     (if i < length es then
        if length es \<le> index then Faults
        else
          (case getLock 2 (es ! index) of
             Spins \<Rightarrow> Spins
           | Faults \<Rightarrow> Faults
           | Returns entry \<Rightarrow>
               if 0 = getFree entry then Returns (False, es[index := releaseLock entry])
               else if getKey entry = key then Returns (True, es[index := releaseLock entry])
               else
                 contains_loop (es[index := releaseLock entry]) key
                   ((index + 1) mod length es) (i + 1))
      else Returns (False, es))"
  by pat_completeness auto
termination
  by (relation "measure (\<lambda>(es, key, index, i). length es - i)") auto

definition contains ::
  "('k \<Rightarrow> int) \<Rightarrow> ('k, 'v) Entry list \<Rightarrow> 'k \<Rightarrow> (bool \<times> ('k, 'v) Entry list) outcome" where
  "contains hash es key =
     (if length es = 0 then Faults
      else
        let index = hash key smod int (length es) in
        if index < 0 then Faults else contains_loop es key (nat index) 0)"

text \<open>The \<open>do ... while (true)\<close> loop of \<open>at\<close>; \<open>dflt\<close> is \<open>Value()\<close>. (The function
  is \<open>at_hm\<close> here: \<open>at\<close> is taken in HOL.)\<close>

function at_loop ::
  "'v \<Rightarrow> ('k, 'v) Entry list \<Rightarrow> 'k \<Rightarrow> nat \<Rightarrow> nat \<Rightarrow> ('v \<times> ('k, 'v) Entry list) outcome" where
  "at_loop dflt es key index dummy =
     (if length es \<le> dummy then Spins
      else
        let dummy = dummy + 1 in
        if dummy = length es then Spins \<comment> \<open>\<open>printf(...); while (true) {}\<close>\<close>
        else if length es \<le> index then Faults
        else
          (case getLock 3 (es ! index) of
             Spins \<Rightarrow> Spins
           | Faults \<Rightarrow> Faults
           | Returns entry \<Rightarrow>
               if 0 = getFree entry then Returns (dflt, es[index := releaseLock entry])
               else if getKey entry = key then
                 (let result = getValue entry in Returns (result, es[index := releaseLock entry]))
               else
                 at_loop dflt (es[index := releaseLock entry]) key
                   ((index + 1) mod length es) dummy))"
  by pat_completeness auto
termination
  by (relation "measure (\<lambda>(dflt, es, key, index, dummy). length es - dummy)") auto

text \<open>The loops are unfolded one iteration at a time, where a proof asks for it.\<close>

declare insertOrAssign_loop.simps [simp del]
declare contains_loop.simps [simp del]
declare at_loop.simps [simp del]

definition at_hm ::
  "('k \<Rightarrow> int) \<Rightarrow> 'v \<Rightarrow> ('k, 'v) Entry list \<Rightarrow> 'k \<Rightarrow> ('v \<times> ('k, 'v) Entry list) outcome" where
  "at_hm hash dflt es key =
     (if length es = 0 then Faults
      else
        let index = hash key smod int (length es) in
        if index < 0 then Faults else at_loop dflt es key (nat index) 0)"

text \<open>A sequence of calls on one map, run one after the other; the results are dropped.\<close>

datatype ('k, 'v) call = InsertOrAssign 'k 'v | Contains 'k | At 'k

fun run_call ::
  "('k \<Rightarrow> int) \<Rightarrow> 'v \<Rightarrow> ('k, 'v) Entry list \<Rightarrow> ('k, 'v) call \<Rightarrow> ('k, 'v) Entry list outcome" where
  "run_call hash dflt es (InsertOrAssign k v) = insertOrAssign hash es k v"
| "run_call hash dflt es (Contains k) =
     (case contains hash es k of Returns (b, es') \<Rightarrow> Returns es' | Spins \<Rightarrow> Spins | Faults \<Rightarrow> Faults)"
| "run_call hash dflt es (At k) =
     (case at_hm hash dflt es k of Returns (r, es') \<Rightarrow> Returns es' | Spins \<Rightarrow> Spins | Faults \<Rightarrow> Faults)"

fun run_calls ::
  "('k \<Rightarrow> int) \<Rightarrow> 'v \<Rightarrow> ('k, 'v) Entry list \<Rightarrow> ('k, 'v) call list \<Rightarrow> ('k, 'v) Entry list outcome" where
  "run_calls hash dflt es [] = Returns es"
| "run_calls hash dflt es (c # cs) =
     (case run_call hash dflt es c of
        Returns es' \<Rightarrow> run_calls hash dflt es' cs
      | Spins \<Rightarrow> Spins
      | Faults \<Rightarrow> Faults)"

text \<open>No call of the sequence assigns to the key.\<close>

fun assigns :: "'k \<Rightarrow> ('k, 'v) call \<Rightarrow> bool" where
  "assigns k (InsertOrAssign k' v) = (k' = k)"
| "assigns k (Contains k') = False"
| "assigns k (At k') = False"

text \<open>The state between two calls: no entry is locked, every entry is free (0) or used (1).\<close>

definition quiescent :: "('k, 'v) Entry list \<Rightarrow> bool" where
  "quiescent es = list_all (\<lambda>e. e_locked e = 0 \<and> (e_free e = 0 \<or> e_free e = 1)) es"

text \<open>The slots a scan visits: \<open>len\<close> slots forward from \<open>index\<close>, around the end of the array.\<close>

definition scan_path :: "nat \<Rightarrow> nat \<Rightarrow> nat \<Rightarrow> nat list" where
  "scan_path n index len = map (\<lambda>j. (index + j) mod n) [0..<len]"

text \<open>The fields of an entry but \<open>_who\<close>, which only tells the last lock holder.\<close>

definition content :: "('k, 'v) Entry \<Rightarrow> int \<times> int \<times> 'v \<times> 'k" where
  "content e = (e_free e, e_locked e, e_value e, e_key e)"

text \<open>A slot ends a lookup of the key: it is free, or it holds the key.\<close>

definition ends_scan :: "('k, 'v) Entry list \<Rightarrow> 'k \<Rightarrow> nat \<Rightarrow> bool" where
  "ends_scan es key i = (e_free (es ! i) = 0 \<or> e_key (es ! i) = key)"

text \<open>Two tables hold the same entries, up to \<open>_who\<close>.\<close>

definition same_content :: "('k, 'v) Entry list \<Rightarrow> ('k, 'v) Entry list \<Rightarrow> bool" where
  "same_content es es' = (map content es' = map content es)"

text \<open>An entry after an assignment: used, with the key and the value.\<close>

definition assigned :: "'k \<Rightarrow> 'v \<Rightarrow> ('k, 'v) Entry \<Rightarrow> ('k, 'v) Entry" where
  "assigned key v e = e\<lparr>e_free := 1, e_value := v, e_key := key\<rparr>"

text \<open>The slot a scan for the key starts from: \<open>_hash(key) % _size\<close>.\<close>

definition home :: "('k \<Rightarrow> int) \<Rightarrow> ('k, 'v) Entry list \<Rightarrow> 'k \<Rightarrow> nat" where
  "home hash es key = nat (hash key smod int (length es))"

text \<open>
  The key is stored with the value where \<open>at\<close> looks for it: the first slot that ends a scan
  of \<open>_size - 1\<close> slots from the key's home slot is a used one and holds the value.
\<close>

definition stored :: "('k \<Rightarrow> int) \<Rightarrow> ('k, 'v) Entry list \<Rightarrow> 'k \<Rightarrow> 'v \<Rightarrow> bool" where
  "stored hash es key v =
     (es \<noteq> [] \<and> 0 \<le> hash key smod int (length es) \<and>
      (\<exists>i. find (ends_scan es key) (scan_path (length es) (home hash es key) (length es - 1)) = Some i
         \<and> e_free (es ! i) = 1 \<and> e_value (es ! i) = v))"

text \<open>Entries of small tables of \<open>nat\<close> keys and values: as \<open>init_blockCall\<close> leaves an
  entry, and as an assignment does.\<close>

definition free_entry :: "(nat, nat) Entry" where
  "free_entry = \<lparr>e_who = - 1, e_free = 0, e_locked = 0, e_value = 99, e_key = 98\<rparr>"

definition used_entry :: "nat \<Rightarrow> nat \<Rightarrow> (nat, nat) Entry" where
  "used_entry k v = \<lparr>e_who = 0, e_free = 1, e_locked = 0, e_value = v, e_key = k\<rparr>"

section \<open>Particle passes (ParticleProcessor.cuh)\<close>

text \<open>
  A \<open>Particle*\<close> or \<open>Cell*\<close> is an address into a store of particles or cells; arrays
  (\<open>particlePointers\<close>) are stores from index to element, with their number of entries;
  \<open>nullptr\<close> is \<open>None\<close>. The two spatial maps are kept as what their \<open>get\<close> returns for a
  position (\<open>Map.cuh\<close> is not part of the sources). One lane runs a pass over its block of
  the pointer array; what the other lanes did before is in the data the pass starts from.
  Dereferencing a null pointer is the fault \<open>NullPointer\<close>.

  Energies, velocities and positions are \<open>float\<close> and \<open>float2\<close>; the operators \<open>+\<close> and
  \<open>*\<close> of \<open>float2\<close> (\<open>Base.cuh\<close>) work on each component, and \<open>atomicAdd\<close> on a
  \<open>float\<close> is the addition of floats.
\<close>

type_synonym float2 = "float32 \<times> float32"
type_synonym particle_ptr = nat

definition add2 :: "float2 \<Rightarrow> float2 \<Rightarrow> float2" where
  "add2 a b = (fadd (fst a) (fst b), fadd (snd a) (snd b))"

definition scale2 :: "float2 \<Rightarrow> float32 \<Rightarrow> float2" where
  "scale2 a m = (fmul (fst a) m, fmul (snd a) m)"

record Particle =
  absPos :: float2
  vel :: float2
  energy :: float32
  alive :: bool
  locked :: int

record Cell =
  cell_absPos :: float2
  cell_vel :: float2
  cell_energy :: float32
  cell_alive :: bool

record SimulationParameters =
  cellMass_Reciprocal :: float32
  cellMinEnergy :: float32
  cellTransformationProb :: float32

record SimulationData =
  particles :: "particle_ptr \<Rightarrow> Particle"
  particlePointers :: "int \<Rightarrow> particle_ptr option"
  numParticlePointers :: nat
  particleMap :: "float2 \<Rightarrow> particle_ptr option"
  cells :: "cell_ptr \<Rightarrow> Cell"
  numCells :: nat
  cellCapacity :: nat
  cellOverflow :: bool
  cellMap :: "float2 \<Rightarrow> cell_ptr option"
  numberGen :: "float32 stream"

record PartitionData =
  startIndex :: int
  endIndex :: int

datatype fault = NullPointer

text \<open>\<open>numberGen.random()\<close>: the numbers the generator will return are a stream; a call
  takes the next one.\<close>

definition random :: "float32 stream \<Rightarrow> float32 \<times> float32 stream" where
  "random g = (shd g, stl g)"

text \<open>
  Modelled from the spec: \<open>DoubleLock\<close> (\<open>Base.cuh\<close> is not part of the sources). "Acquire
  both entities' locks ...; if the double-lock cannot be acquired, the pair is skipped for
  this step (no blocking wait)": \<open>tryLock\<close> takes both lock words when both are free and
  none otherwise, \<open>isLocked\<close> tells which, \<open>releaseLock\<close> frees both.
\<close>

definition DoubleLock_tryLock ::
  "particle_ptr \<Rightarrow> particle_ptr \<Rightarrow> (particle_ptr \<Rightarrow> Particle) \<Rightarrow> bool \<times> (particle_ptr \<Rightarrow> Particle)" where
  "DoubleLock_tryLock lock1 lock2 ps =
     (if locked (ps lock1) = 0 \<and> locked (ps lock2) = 0
      then (True, ps(lock1 := (ps lock1)\<lparr>locked := 1\<rparr>, lock2 := (ps lock2)\<lparr>locked := 1\<rparr>))
      else (False, ps))"

definition DoubleLock_releaseLock ::
  "particle_ptr \<Rightarrow> particle_ptr \<Rightarrow> (particle_ptr \<Rightarrow> Particle) \<Rightarrow> (particle_ptr \<Rightarrow> Particle)" where
  "DoubleLock_releaseLock lock1 lock2 ps =
     (let ps = ps(lock1 := (ps lock1)\<lparr>locked := 0\<rparr>) in ps(lock2 := (ps lock2)\<lparr>locked := 0\<rparr>))"

text \<open>
  Modelled from the spec: \<open>EntityFactory::createClusterWithRandomCell\<close> (the factory is not
  part of the sources). "on conversion the particle is marked dead and a new cell is
  allocated", and of an allocation in an arena: "a shared counter is atomically incremented
  by the requested count; if the resulting range exceeds capacity, the arena flags an
  overflow condition (not a hard failure)". So the counter of the cell arena goes up by one; the new cell takes the place
  the counter pointed at when that lies within the capacity, and the overflow is flagged
  when it does not. What the factory writes into the new cell, and which random numbers it
  takes for it, is not in the spec: it is the parameter \<open>newCell\<close>.
\<close>

definition createClusterWithRandomCell ::
  "(float32 \<Rightarrow> float2 \<Rightarrow> float2 \<Rightarrow> float32 stream \<Rightarrow> Cell \<times> float32 stream)
     \<Rightarrow> float32 \<Rightarrow> float2 \<Rightarrow> float2 \<Rightarrow> SimulationData \<Rightarrow> SimulationData" where
  "createClusterWithRandomCell newCell e pos v d =
     (let (cell, g) = newCell e pos v (numberGen d);
          index = numCells d;
          d = d\<lparr>numberGen := g, numCells := index + 1\<rparr>
      in if index < cellCapacity d then d\<lparr>cells := (cells d)(index := cell)\<rparr>
         else d\<lparr>cellOverflow := True\<rparr>)"

text \<open>
  The loop of every pass:
  \<open>for (int particleIndex = startIndex; particleIndex <= endIndex; ++particleIndex) body\<close>.
\<close>

function particle_loop ::
  "(SimulationData \<Rightarrow> int \<Rightarrow> fault + SimulationData) \<Rightarrow> int \<Rightarrow> int \<Rightarrow> SimulationData
     \<Rightarrow> fault + SimulationData" where
  "particle_loop body particleIndex endIdx d =
     (if particleIndex \<le> endIdx then
        (case body d particleIndex of
           Inl f \<Rightarrow> Inl f
         | Inr d' \<Rightarrow> particle_loop body (particleIndex + 1) endIdx d')
      else Inr d)"
  by pat_completeness auto
termination
  by (relation "measure (\<lambda>(body, particleIndex, endIdx, d). nat (endIdx + 1 - particleIndex))") auto

declare particle_loop.simps [simp del]

text \<open>\<open>processingMovement_gridCall\<close>; \<open>mapPosCorrection\<close> belongs to \<open>Map.cuh\<close> and is a
  parameter.\<close>

definition processingMovement_body ::
  "(float2 \<Rightarrow> float2) \<Rightarrow> SimulationData \<Rightarrow> int \<Rightarrow> fault + SimulationData" where
  "processingMovement_body mapPosCorrection d particleIndex =
     (case particlePointers d particleIndex of
        None \<Rightarrow> Inl NullPointer
      | Some particle \<Rightarrow>
          let ps = particles d;
              ps = ps(particle := (ps particle)\<lparr>absPos := add2 (absPos (ps particle)) (vel (ps particle))\<rparr>);
              ps = ps(particle := (ps particle)\<lparr>absPos := mapPosCorrection (absPos (ps particle))\<rparr>)
          in Inr (d\<lparr>particles := ps\<rparr>))"

definition processingMovement_gridCall ::
  "(float2 \<Rightarrow> float2) \<Rightarrow> PartitionData \<Rightarrow> SimulationData \<Rightarrow> fault + SimulationData" where
  "processingMovement_gridCall mapPosCorrection particleBlock d =
     particle_loop (processingMovement_body mapPosCorrection)
       (startIndex particleBlock) (endIndex particleBlock) d"

text \<open>\<open>processingCollision_gridCall\<close>: the body of the loop, then the pass.\<close>

definition processingCollision_body :: "SimulationData \<Rightarrow> int \<Rightarrow> fault + SimulationData" where
  "processingCollision_body d particleIndex =
     (case particlePointers d particleIndex of
        None \<Rightarrow> Inl NullPointer
      | Some particle \<Rightarrow>
          (case particleMap d (absPos (particles d particle)) of
             None \<Rightarrow> Inr d
           | Some otherParticle \<Rightarrow>
               if otherParticle \<noteq> particle then
                 if alive (particles d particle) \<and> alive (particles d otherParticle) then
                   (case DoubleLock_tryLock particle otherParticle (particles d) of
                      (False, ps) \<Rightarrow> Inr (d\<lparr>particles := ps\<rparr>) \<comment> \<open>\<open>continue\<close>\<close>
                    | (True, ps) \<Rightarrow>
                        let factor1 = fdiv (energy (ps particle))
                                        (fadd (energy (ps particle)) (energy (ps otherParticle)));
                            factor2 = fsub (Finite 1) factor1;
                            ps = ps(particle := (ps particle)
                                   \<lparr>vel := add2 (scale2 (vel (ps particle)) factor1)
                                                (scale2 (vel (ps otherParticle)) factor2)\<rparr>);
                            ps = ps(particle := (ps particle)
                                   \<lparr>energy := fadd (energy (ps particle)) (energy (ps otherParticle))\<rparr>);
                            ps = ps(otherParticle := (ps otherParticle)
                                   \<lparr>energy := fadd (energy (ps otherParticle))
                                                (fneg (energy (ps otherParticle)))\<rparr>);
                            ps = ps(otherParticle := (ps otherParticle)\<lparr>alive := False\<rparr>);
                            ps = DoubleLock_releaseLock particle otherParticle ps
                        in Inr (d\<lparr>particles := ps\<rparr>))
                 else Inr d
               else Inr d))"

definition processingCollision_gridCall :: "PartitionData \<Rightarrow> SimulationData \<Rightarrow> fault + SimulationData" where
  "processingCollision_gridCall particleBlock d =
     particle_loop processingCollision_body (startIndex particleBlock) (endIndex particleBlock) d"

text \<open>
  \<open>processingTransformation_gridCall\<close>. \<open>cudaSimulationParameters\<close> is the constant memory of
  the device and \<open>Physics::linearKineticEnergy\<close> belongs to \<open>Physics.cuh\<close>: both are
  parameters, the second one a function from a \<open>float\<close> and a \<open>float2\<close> to a \<open>float\<close>.
\<close>

definition processingTransformation_body ::
  "SimulationParameters \<Rightarrow> (float32 \<Rightarrow> float2 \<Rightarrow> float32)
     \<Rightarrow> (float32 \<Rightarrow> float2 \<Rightarrow> float2 \<Rightarrow> float32 stream \<Rightarrow> Cell \<times> float32 stream)
     \<Rightarrow> SimulationData \<Rightarrow> int \<Rightarrow> fault + SimulationData" where
  "processingTransformation_body cudaSimulationParameters linearKineticEnergy newCell d particleIndex =
     (case particlePointers d particleIndex of
        None \<Rightarrow> Inl NullPointer
      | Some particle \<Rightarrow>
          let innerEnergy = fsub (energy (particles d particle))
                (linearKineticEnergy (fdiv (Finite 1) (cellMass_Reciprocal cudaSimulationParameters))
                    (vel (particles d particle)))
          in
          if fge innerEnergy (cellMinEnergy cudaSimulationParameters) then
            let (r, g) = random (numberGen d);
                d = d\<lparr>numberGen := g\<rparr>
            in
            if flt r (cellTransformationProb cudaSimulationParameters) then
              let d = createClusterWithRandomCell newCell innerEnergy
                        (absPos (particles d particle)) (vel (particles d particle)) d
              in Inr (d\<lparr>particles := (particles d)(particle := (particles d particle)\<lparr>alive := False\<rparr>)\<rparr>)
            else Inr d
          else Inr d)"

definition processingTransformation_gridCall ::
  "SimulationParameters \<Rightarrow> (float32 \<Rightarrow> float2 \<Rightarrow> float32)
     \<Rightarrow> (float32 \<Rightarrow> float2 \<Rightarrow> float2 \<Rightarrow> float32 stream \<Rightarrow> Cell \<times> float32 stream)
     \<Rightarrow> PartitionData \<Rightarrow> SimulationData \<Rightarrow> fault + SimulationData" where
  "processingTransformation_gridCall cudaSimulationParameters linearKineticEnergy newCell particleBlock d =
     particle_loop (processingTransformation_body cudaSimulationParameters linearKineticEnergy newCell)
       (startIndex particleBlock) (endIndex particleBlock) d"

text \<open>\<open>processingDataCopy_gridCall\<close>; \<open>particle\<close> is a reference to the array element, so
  \<open>particle = nullptr\<close> clears the element.\<close>

definition processingDataCopy_body :: "SimulationData \<Rightarrow> int \<Rightarrow> fault + SimulationData" where
  "processingDataCopy_body d particleIndex =
     (case particlePointers d particleIndex of
        None \<Rightarrow> Inl NullPointer
      | Some particle \<Rightarrow>
          if \<not> alive (particles d particle) then
            Inr (d\<lparr>particlePointers := (particlePointers d)(particleIndex := None)\<rparr>)
          else
            (case cellMap d (absPos (particles d particle)) of
               Some cell \<Rightarrow>
                 if cell_alive (cells d cell) then
                   let d = d\<lparr>cells := (cells d)(cell := (cells d cell)
                             \<lparr>cell_energy := fadd (cell_energy (cells d cell))
                                                  (energy (particles d particle))\<rparr>)\<rparr>
                   in Inr (d\<lparr>particlePointers := (particlePointers d)(particleIndex := None)\<rparr>)
                 else Inr d
             | None \<Rightarrow> Inr d))"

definition processingDataCopy_gridCall :: "PartitionData \<Rightarrow> SimulationData \<Rightarrow> fault + SimulationData" where
  "processingDataCopy_gridCall particleBlock d =
     particle_loop processingDataCopy_body (startIndex particleBlock) (endIndex particleBlock) d"

text \<open>
  What the data copy does with the particle of an array element, read off the data the pass
  starts from: the element is removed when its particle is dead or lies on a live cell, and
  a live cell that holds the energy \<open>e\<close> when the loop comes to the element holds the float
  sum of \<open>e\<close> and the energy of the particle after it, when the particle is alive and lies
  on that cell.
\<close>

definition on_live_cell :: "SimulationData \<Rightarrow> particle_ptr \<Rightarrow> cell_ptr option" where
  "on_live_cell d particle =
     (case cellMap d (absPos (particles d particle)) of
        Some cell \<Rightarrow> if cell_alive (cells d cell) then Some cell else None
      | None \<Rightarrow> None)"

definition removed :: "SimulationData \<Rightarrow> int \<Rightarrow> bool" where
  "removed d i =
     (case particlePointers d i of
        Some particle \<Rightarrow> \<not> alive (particles d particle) \<or> on_live_cell d particle \<noteq> None
      | None \<Rightarrow> True)"

definition absorb :: "SimulationData \<Rightarrow> cell_ptr \<Rightarrow> float32 \<Rightarrow> int \<Rightarrow> float32" where
  "absorb d cell e i =
     (case particlePointers d i of
        Some particle \<Rightarrow>
          if alive (particles d particle) \<and> on_live_cell d particle = Some cell
          then fadd e (energy (particles d particle)) else e
      | None \<Rightarrow> e)"

text \<open>
  Modelled from the spec: the compaction pass (the garbage collector kernels are not part
  of the sources). "a step's compaction/garbage-collection pass copies every entity
  satisfying 'still alive' from current into next, producing a live-only, size-reduced next
  generation, then the arenas swap roles"; "dead ... entities are never explicitly freed -
  they are simply excluded from the copy". The generation of particles is the pointer
  array: the next one holds the particles of the elements that are not null and whose
  particle is alive, in their order and without gaps. A particle keeps its name in the store
  when it is copied (which of the two backing arrays holds it is not modelled), and no field
  of a particle is written. The passes of \<open>ParticleProcessor\<close> reach the cells through
  \<open>cellMap\<close> only: the data hold no array of the generation of cells, and the compaction
  of the model leaves the cells as they are.
\<close>

definition live_particles :: "SimulationData \<Rightarrow> particle_ptr list" where
  "live_particles d =
     filter (\<lambda>particle. alive (particles d particle))
       (List.map_filter (\<lambda>i. particlePointers d (int i)) [0..<numParticlePointers d])"

definition compaction :: "SimulationData \<Rightarrow> SimulationData" where
  "compaction d =
     (let next = live_particles d
      in d\<lparr>particlePointers :=
             (\<lambda>i. if 0 \<le> i \<and> i < int (length next) then Some (next ! nat i) else None),
           numParticlePointers := length next\<rparr>)"

text \<open>The passes of a timestep on the particles, each over a block of the array (the
  compaction over the whole array), one after the other in any order.\<close>

datatype pass = Movement | Collision | Transformation | DataCopy | Compaction

fun run_pass ::
  "(float2 \<Rightarrow> float2) \<Rightarrow> SimulationParameters \<Rightarrow> (float32 \<Rightarrow> float2 \<Rightarrow> float32)
     \<Rightarrow> (float32 \<Rightarrow> float2 \<Rightarrow> float2 \<Rightarrow> float32 stream \<Rightarrow> Cell \<times> float32 stream)
     \<Rightarrow> pass \<times> PartitionData \<Rightarrow> SimulationData \<Rightarrow> fault + SimulationData" where
  "run_pass mpc params lke newCell (Movement, b) d = processingMovement_gridCall mpc b d"
| "run_pass mpc params lke newCell (Collision, b) d = processingCollision_gridCall b d"
| "run_pass mpc params lke newCell (Transformation, b) d
     = processingTransformation_gridCall params lke newCell b d"
| "run_pass mpc params lke newCell (DataCopy, b) d = processingDataCopy_gridCall b d"
| "run_pass mpc params lke newCell (Compaction, b) d = Inr (compaction d)"

fun run_passes ::
  "(float2 \<Rightarrow> float2) \<Rightarrow> SimulationParameters \<Rightarrow> (float32 \<Rightarrow> float2 \<Rightarrow> float32)
     \<Rightarrow> (float32 \<Rightarrow> float2 \<Rightarrow> float2 \<Rightarrow> float32 stream \<Rightarrow> Cell \<times> float32 stream)
     \<Rightarrow> (pass \<times> PartitionData) list \<Rightarrow> SimulationData \<Rightarrow> fault + SimulationData" where
  "run_passes mpc params lke newCell [] d = Inr d"
| "run_passes mpc params lke newCell (p # ps) d =
     (case run_pass mpc params lke newCell p d of
        Inl f \<Rightarrow> Inl f
      | Inr d' \<Rightarrow> run_passes mpc params lke newCell ps d')"

text \<open>Between two states: no dead particle is alive again, every element of the pointer
  array holds a particle that the array held before (a particle that was excluded is not
  taken up again), and no dead cell of the arena is alive again.\<close>

definition never_revived :: "SimulationData \<Rightarrow> SimulationData \<Rightarrow> bool" where
  "never_revived d d' =
     ((\<forall>p. \<not> alive (particles d p) \<longrightarrow> \<not> alive (particles d' p))
      \<and> (\<forall>j p. particlePointers d' j = Some p \<longrightarrow> (\<exists>i. particlePointers d i = Some p))
      \<and> numCells d \<le> numCells d'
      \<and> (\<forall>c<numCells d. \<not> cell_alive (cells d c) \<longrightarrow> \<not> cell_alive (cells d' c)))"

text \<open>Data for the examples. A resting particle and its store; a kinetic energy
  \<open>m * (v.x * v.x + v.y * v.y) * 0.5f\<close> and a factory that builds a live cell from its
  arguments; two live particles that meet; a particle whose inner energy is the configured
  minimum; three array elements, of which the first lies on a live cell and the third is
  dead.\<close>

definition particle_at :: "real \<Rightarrow> real \<Rightarrow> real \<Rightarrow> real \<Rightarrow> real \<Rightarrow> bool \<Rightarrow> Particle" where
  "particle_at x y vx vy e a =
     \<lparr>absPos = (Finite x, Finite y), vel = (Finite vx, Finite vy), energy = Finite e,
      alive = a, locked = 0\<rparr>"

definition no_particle :: Particle where
  "no_particle = particle_at 0 0 0 0 0 False"

definition no_cell :: Cell where
  "no_cell = \<lparr>cell_absPos = (Finite 0, Finite 0), cell_vel = (Finite 0, Finite 0),
              cell_energy = Finite 0, cell_alive = False\<rparr>"

definition kinetic :: "float32 \<Rightarrow> float2 \<Rightarrow> float32" where
  "kinetic m v =
     fmul (fmul m (fadd (fmul (fst v) (fst v)) (fmul (snd v) (snd v)))) (Finite (1 / 2))"

definition live_cell :: "float32 \<Rightarrow> float2 \<Rightarrow> float2 \<Rightarrow> float32 stream \<Rightarrow> Cell \<times> float32 stream" where
  "live_cell e pos v g = (\<lparr>cell_absPos = pos, cell_vel = v, cell_energy = e, cell_alive = True\<rparr>, g)"

definition transformation_params :: SimulationParameters where
  "transformation_params =
     \<lparr>cellMass_Reciprocal = Finite 1, cellMinEnergy = Finite 10,
      cellTransformationProb = Finite (1 / 2)\<rparr>"

definition collision_example :: "real \<Rightarrow> real \<Rightarrow> SimulationData" where
  "collision_example e1 e2 =
     \<lparr>particles = (\<lambda>_. no_particle)
        (0 := particle_at (5 / 2) (7 / 2) 1 0 e1 True,
         1 := particle_at (11 / 4) (13 / 4) (- 1) 0 e2 True),
      particlePointers = (\<lambda>_. None)(0 := Some 0, 1 := Some 1),
      numParticlePointers = 2,
      particleMap = (\<lambda>_. None)((Finite (5 / 2), Finite (7 / 2)) := Some 1),
      cells = (\<lambda>_. no_cell),
      numCells = 0,
      cellCapacity = 4,
      cellOverflow = False,
      cellMap = (\<lambda>_. None),
      numberGen = sconst (Finite (1 / 4))\<rparr>"

definition transformation_example :: "real \<Rightarrow> real \<Rightarrow> SimulationData" where
  "transformation_example e vx =
     \<lparr>particles = (\<lambda>_. no_particle)(0 := particle_at (5 / 2) (7 / 2) vx 0 e True),
      particlePointers = (\<lambda>_. None)(0 := Some 0),
      numParticlePointers = 1,
      particleMap = (\<lambda>_. None),
      cells = (\<lambda>_. no_cell),
      numCells = 0,
      cellCapacity = 4,
      cellOverflow = False,
      cellMap = (\<lambda>_. None),
      numberGen = sconst (Finite (1 / 4))\<rparr>"

definition dataCopy_example :: SimulationData where
  "dataCopy_example =
     \<lparr>particles = (\<lambda>_. no_particle)
        (0 := particle_at 1 1 0 0 7 True,
         1 := particle_at 2 2 0 0 3 True,
         2 := particle_at 1 1 0 0 0 False),
      particlePointers = (\<lambda>_. None)(0 := Some 0, 1 := Some 1, 2 := Some 2),
      numParticlePointers = 3,
      particleMap = (\<lambda>_. None),
      cells = (\<lambda>_. no_cell)
        (0 := \<lparr>cell_absPos = (Finite 1, Finite 1), cell_vel = (Finite 0, Finite 0),
               cell_energy = Finite 5, cell_alive = True\<rparr>),
      numCells = 1,
      cellCapacity = 4,
      cellOverflow = False,
      cellMap = (\<lambda>_. None)((Finite 1, Finite 1) := Some 0),
      numberGen = sconst (Finite (1 / 4))\<rparr>"

section \<open>Simulation facade (CudaSimulationFacade)\<close>

text \<open>
  The facade runs on the host and owns the device. The kernel launchers, \<open>SimulationData\<close>,
  \<open>SimulationResult\<close> and \<open>CudaMemoryManager\<close> are not part of the sources: the device is a
  state of any type, and what the absent functions do to it or read from it is a record of
  parameters, named after them. The transfer arrays of \<open>_cudaAccessTO\<close> are memory of the
  device; \<open>freeMemory\<close> and \<open>acquireMemory\<close> are told which of them they work on.
  \<open>CHECK_FOR_CUDA_ERROR\<close> raises when the device reports an error; the call then ends with
  \<open>CudaError\<close>. \<open>_currentTimestep\<close> is an atomic \<open>uint64_t\<close>.
\<close>

datatype cuda_error = CudaError

datatype accessTO_array = TO_cells | TO_particles | TO_tokens | TO_stringBytes

record ArraySizes =
  cellArraySize :: nat
  particleArraySize :: nat
  tokenArraySize :: nat

record ('dev, 'host) Driver =
  calcTimestep_kernel :: "'dev \<Rightarrow> 'dev"
  cudaGetLastError :: "'dev \<Rightarrow> bool" \<comment> \<open>the result is not \<open>cudaSuccess\<close>\<close>
  isArrayResizeNeeded :: "'dev \<Rightarrow> bool"
  resizeEntitiesForCleanup :: "ArraySizes \<Rightarrow> 'dev \<Rightarrow> 'dev"
  isEmpty :: "'dev \<Rightarrow> bool"
  copyArrays :: "'dev \<Rightarrow> 'dev"
  resizeRemainings :: "'dev \<Rightarrow> 'dev"
  swapArrays :: "'dev \<Rightarrow> 'dev"
  freeMemory :: "accessTO_array \<Rightarrow> 'dev \<Rightarrow> 'dev"
  acquireMemory :: "accessTO_array \<Rightarrow> nat \<Rightarrow> 'dev \<Rightarrow> 'dev"
  cells_getSize_host :: "'dev \<Rightarrow> nat"
  tokens_getSize_host :: "'dev \<Rightarrow> nat"
  MAX_STRING_BYTES :: nat
  getInspectedData_kernel :: "64 word list \<Rightarrow> 'dev \<Rightarrow> 'dev"
  copyToHost :: "'dev \<Rightarrow> 'host \<Rightarrow> 'host"

record 'dev Facade =
  currentTimestep :: "64 word"
  device :: 'dev

definition syncAndCheck :: "('dev, 'host) Driver \<Rightarrow> 'dev Facade \<Rightarrow> cuda_error + 'dev Facade" where
  "syncAndCheck drv f = (if cudaGetLastError drv (device f) then Inl CudaError else Inr f)"

text \<open>\<open>resizeArrays\<close>: the arrays of the entities are resized (with a copy into the new
  arrays and a swap when the simulation is not empty), then the four transfer arrays are
  freed and acquired anew, those of the cells and of the particles with the size of the cell
  array, that of the tokens with the size of the token array.\<close>

definition resizeArrays ::
  "('dev, 'host) Driver \<Rightarrow> ArraySizes \<Rightarrow> 'dev Facade \<Rightarrow> cuda_error + 'dev Facade" where
  "resizeArrays drv additionals f =
     (let f = f\<lparr>device := resizeEntitiesForCleanup drv additionals (device f)\<rparr> in
      case (if \<not> isEmpty drv (device f) then
              (case syncAndCheck drv (f\<lparr>device := copyArrays drv (device f)\<rparr>) of
                 Inl e \<Rightarrow> Inl e
               | Inr f \<Rightarrow>
                   let f = f\<lparr>device := resizeRemainings drv (device f)\<rparr>
                   in syncAndCheck drv (f\<lparr>device := swapArrays drv (device f)\<rparr>))
            else Inr (f\<lparr>device := resizeRemainings drv (device f)\<rparr>)) of
        Inl e \<Rightarrow> Inl e
      | Inr f \<Rightarrow>
          let f = f\<lparr>device := freeMemory drv TO_cells (device f)\<rparr>;
              f = f\<lparr>device := freeMemory drv TO_particles (device f)\<rparr>;
              f = f\<lparr>device := freeMemory drv TO_tokens (device f)\<rparr>;
              f = f\<lparr>device := freeMemory drv TO_stringBytes (device f)\<rparr>;
              cellArraySize = cells_getSize_host drv (device f);
              tokenArraySize = tokens_getSize_host drv (device f);
              f = f\<lparr>device := acquireMemory drv TO_cells cellArraySize (device f)\<rparr>;
              f = f\<lparr>device := acquireMemory drv TO_particles cellArraySize (device f)\<rparr>;
              f = f\<lparr>device := acquireMemory drv TO_tokens tokenArraySize (device f)\<rparr>;
              f = f\<lparr>device := acquireMemory drv TO_stringBytes (MAX_STRING_BYTES drv) (device f)\<rparr>
          in if cudaGetLastError drv (device f) then Inl CudaError else Inr f)"

definition automaticResizeArrays ::
  "('dev, 'host) Driver \<Rightarrow> 'dev Facade \<Rightarrow> cuda_error + 'dev Facade" where
  "automaticResizeArrays drv f =
     (if currentTimestep f mod 10 = 0 then
        if isArrayResizeNeeded drv (device f) then
          resizeArrays drv \<lparr>cellArraySize = 0, particleArraySize = 0, tokenArraySize = 0\<rparr> f
        else Inr f
      else Inr f)"

definition calcTimestep :: "('dev, 'host) Driver \<Rightarrow> 'dev Facade \<Rightarrow> cuda_error + 'dev Facade" where
  "calcTimestep drv f =
     (let f = f\<lparr>device := calcTimestep_kernel drv (device f)\<rparr> in
      case syncAndCheck drv f of
        Inl e \<Rightarrow> Inl e
      | Inr f \<Rightarrow>
          (case automaticResizeArrays drv f of
             Inl e \<Rightarrow> Inl e
           | Inr f \<Rightarrow> Inr (f\<lparr>currentTimestep := currentTimestep f + 1\<rparr>)))"

text \<open>What \<open>resizeArrays\<close> with no additional sizes makes of a device when no error is
  reported on the way, step by step.\<close>

definition resized_entities :: "('dev, 'host) Driver \<Rightarrow> 'dev \<Rightarrow> 'dev" where
  "resized_entities drv dev =
     (let dev = resizeEntitiesForCleanup drv
                  \<lparr>cellArraySize = 0, particleArraySize = 0, tokenArraySize = 0\<rparr> dev
      in if isEmpty drv dev then resizeRemainings drv dev
         else swapArrays drv (resizeRemainings drv (copyArrays drv dev)))"

definition reacquired_transfer :: "('dev, 'host) Driver \<Rightarrow> 'dev \<Rightarrow> 'dev" where
  "reacquired_transfer drv dev =
     (let dev = freeMemory drv TO_stringBytes (freeMemory drv TO_tokens
                  (freeMemory drv TO_particles (freeMemory drv TO_cells dev)));
          c = cells_getSize_host drv dev;
          t = tokens_getSize_host drv dev
      in acquireMemory drv TO_stringBytes (MAX_STRING_BYTES drv)
           (acquireMemory drv TO_tokens t
              (acquireMemory drv TO_particles c (acquireMemory drv TO_cells c dev))))"

text \<open>The loop \<open>for (int i = 0; i < entityIds.size(); ++i) ids.values[i] = entityIds.at(i)\<close>
  of \<open>getInspectedSimulationData\<close>.\<close>

function fill_values :: "64 word list \<Rightarrow> 64 word list \<Rightarrow> nat \<Rightarrow> 64 word list" where
  "fill_values entityIds vals i =
     (if i < length entityIds then fill_values entityIds (vals[i := entityIds ! i]) (i + 1)
      else vals)"
  by pat_completeness auto
termination
  by (relation "measure (\<lambda>(entityIds, vals, i). length entityIds - i)") auto

declare fill_values.simps [simp del]

text \<open>
  \<open>getInspectedSimulationData\<close>. \<open>Const::MaxInspectedEntities\<close> and \<open>InspectedEntityIds\<close>
  belong to \<open>EngineInterface\<close>, not part of the sources: the constant is a parameter, and the
  local \<open>ids\<close> is an array of that many values that starts with whatever the stack holds
  (\<open>uninit\<close>). The caller's transfer structure is \<open>dataTO\<close>; the function returns it with
  the facade.
\<close>

definition getInspectedSimulationData ::
  "('dev, 'host) Driver \<Rightarrow> nat \<Rightarrow> 64 word list \<Rightarrow> 64 word list \<Rightarrow> 'host \<Rightarrow> 'dev Facade
     \<Rightarrow> cuda_error + ('host \<times> 'dev Facade)" where
  "getInspectedSimulationData drv MaxInspectedEntities uninit entityIds dataTO f =
     (let ids = uninit in
      if length entityIds > MaxInspectedEntities then Inr (dataTO, f)
      else
        let ids = fill_values entityIds ids 0;
            ids = (if length entityIds < MaxInspectedEntities then ids[length entityIds := 0] else ids);
            f = f\<lparr>device := getInspectedData_kernel drv ids (device f)\<rparr>
        in case syncAndCheck drv f of
             Inl e \<Rightarrow> Inl e
           | Inr f \<Rightarrow> Inr (copyToHost drv (device f) dataTO, f))"

text \<open>A driver for the examples of the export: the device is the id array it was last
  handed, the kernels do nothing else, no error is reported, and the host copy is the device
  state.\<close>

definition example_driver :: "(64 word list, 64 word list) Driver" where
  "example_driver =
     \<lparr>calcTimestep_kernel = (\<lambda>dev. dev), cudaGetLastError = (\<lambda>dev. False),
      isArrayResizeNeeded = (\<lambda>dev. dev \<noteq> []), resizeEntitiesForCleanup = (\<lambda>a dev. dev),
      isEmpty = (\<lambda>dev. True), copyArrays = (\<lambda>dev. dev), resizeRemainings = (\<lambda>dev. []),
      swapArrays = (\<lambda>dev. dev), freeMemory = (\<lambda>a dev. dev), acquireMemory = (\<lambda>a n dev. dev),
      cells_getSize_host = length, tokens_getSize_host = length, MAX_STRING_BYTES = 0,
      getInspectedData_kernel = (\<lambda>ids dev. ids), copyToHost = (\<lambda>dev host. dev)\<rparr>"

text \<open>A driver for the examples of a timestep. The device is the capacity of its arrays, the
  overflow signal and the transfer arrays it holds with their sizes. The kernels of a
  timestep raise the signal, \<open>resizeEntitiesForCleanup\<close> doubles the capacity and adds what
  it is asked for, \<open>resizeRemainings\<close> takes the signal back, a token array is half a cell
  array, and no error is reported.\<close>

record example_device =
  capacity :: nat
  overflow :: bool
  transfer :: "(accessTO_array \<times> nat) list"

definition resize_driver :: "(example_device, unit) Driver" where
  "resize_driver =
     \<lparr>calcTimestep_kernel = (\<lambda>dev. dev\<lparr>overflow := True\<rparr>), cudaGetLastError = (\<lambda>dev. False),
      isArrayResizeNeeded = overflow,
      resizeEntitiesForCleanup = (\<lambda>a dev. dev\<lparr>capacity := 2 * capacity dev + cellArraySize a\<rparr>),
      isEmpty = (\<lambda>dev. False), copyArrays = (\<lambda>dev. dev),
      resizeRemainings = (\<lambda>dev. dev\<lparr>overflow := False\<rparr>),
      swapArrays = (\<lambda>dev. dev),
      freeMemory = (\<lambda>a dev. dev\<lparr>transfer := filter (\<lambda>x. fst x \<noteq> a) (transfer dev)\<rparr>),
      acquireMemory = (\<lambda>a n dev. dev\<lparr>transfer := transfer dev @ [(a, n)]\<rparr>),
      cells_getSize_host = capacity, tokens_getSize_host = (\<lambda>dev. capacity dev div 2),
      MAX_STRING_BYTES = 100,
      getInspectedData_kernel = (\<lambda>ids dev. dev), copyToHost = (\<lambda>dev host. host)\<rparr>"

section \<open>Properties of the toroidal map\<close>

subsection \<open>Properties of the wraparound correction\<close>

lemma wrap32_id: "- (2 ^ 31) \<le> v \<Longrightarrow> v < 2 ^ 31 \<Longrightarrow> wrap32 v = v"
  by (simp add: wrap32_def)

lemma smod_bounds: "0 < s \<Longrightarrow> - s < a smod s \<and> a smod s < (s::int)"
  using smod_int_range [of s a] by auto

lemma smod_mod_eq: "(a smod s) mod s = a mod (s::int)"
proof -
  obtain k :: int where "a smod s = a mod s + s * k"
    using signed_modulo_int_eq_modulo_int [of a s] by (metis diff_conv_add_uminus mult_minus_right)
  then show ?thesis
    by simp
qed

lemma smod_nonneg: "0 < s \<Longrightarrow> 0 \<le> a \<Longrightarrow> a smod s = a mod (s::int)"
  by (simp add: signed_modulo_int_def sgn_if)

text \<open>
  The integer overload: as long as \<open>(pos % size) + size\<close> stays inside the 32-bit range
  (any size up to \<open>2^30\<close>), the result is the mathematical residue of the coordinate.
\<close>

lemma mapCorrection_coord_eq_mod:
  assumes "0 < s" and "s \<le> 2 ^ 30"
  shows "mapCorrection_coord p s = p mod s"
proof -
  have b: "- s < p smod s \<and> p smod s < s"
    using assms(1) by (rule smod_bounds)
  have w: "wrap32 (p smod s + s) = p smod s + s"
    using b assms by (intro wrap32_id) auto
  have "0 \<le> p smod s + s"
    using b by simp
  then have "(p smod s + s) smod s = (p smod s + s) mod s"
    using assms(1) by (simp add: smod_nonneg)
  also have "\<dots> = p mod s"
    by (simp add: smod_mod_eq)
  finally show ?thesis
    by (simp add: mapCorrection_coord_def w)
qed

lemma mapCorrection_coord_range:
  "0 < s \<Longrightarrow> s \<le> 2 ^ 30 \<Longrightarrow> 0 \<le> mapCorrection_coord p s \<and> mapCorrection_coord p s < s"
  by (simp add: mapCorrection_coord_eq_mod)

lemma mapCorrection_coord_idem:
  "0 < s \<Longrightarrow> s \<le> 2 ^ 30 \<Longrightarrow> mapCorrection_coord (mapCorrection_coord p s) s = mapCorrection_coord p s"
  by (simp add: mapCorrection_coord_eq_mod)

text \<open>Beyond \<open>2^30\<close> the addition overflows and the result can be negative.\<close>

lemma mapCorrection_coord_overflow: "mapCorrection_coord (2 ^ 31 - 2) (2 ^ 31 - 1) = - 3"
  by (simp add: mapCorrection_coord_def wrap32_def signed_modulo_int_def)

text \<open>The double overload is right on non-negative coordinates in the range of \<open>int\<close>
  (there both steps are exact in doubles: the fractional part is a multiple of the last
  place of the coordinate, and the sum is at most the coordinate); a coordinate outside that
  range has no conversion.\<close>

lemma to_int_nonneg: "0 \<le> d \<Longrightarrow> d < 2 ^ 31 \<Longrightarrow> to_int d = Some \<lfloor>d\<rfloor>"
proof -
  assume a: "0 \<le> d" "d < 2 ^ 31"
  have "\<lfloor>d\<rfloor> < 2 ^ 31"
    using a(2) by (simp add: floor_less_iff)
  moreover have "0 \<le> \<lfloor>d\<rfloor>"
    using a(1) by simp
  ultimately show ?thesis
    using a(1) by (simp add: to_int_def Let_def)
qed

lemma mapCorrection_Kernel_double2_nonneg:
  assumes "0 \<le> fst pos" and "fst pos < 2 ^ 31" and "0 \<le> snd pos" and "snd pos < 2 ^ 31"
    and "0 < fst size2" and "fst size2 \<le> 2 ^ 30" and "0 < snd size2" and "snd size2 \<le> 2 ^ 30"
  shows "\<exists>r. mapCorrection_Kernel_double2 pos size2 = Some r
       \<and> 0 \<le> fst r \<and> fst r < real_of_int (fst size2)
       \<and> 0 \<le> snd r \<and> snd r < real_of_int (snd size2)"
proof -
  let ?wx = "mapCorrection_coord \<lfloor>fst pos\<rfloor> (fst size2)"
  let ?wy = "mapCorrection_coord \<lfloor>snd pos\<rfloor> (snd size2)"
  have wx: "0 \<le> ?wx \<and> ?wx < fst size2"
    using assms(5,6) by (rule mapCorrection_coord_range)
  have wy: "0 \<le> ?wy \<and> ?wy < snd size2"
    using assms(7,8) by (rule mapCorrection_coord_range)
  have r: "mapCorrection_Kernel_double2 pos size2
      = Some (real_of_int ?wx + (fst pos - real_of_int \<lfloor>fst pos\<rfloor>),
              real_of_int ?wy + (snd pos - real_of_int \<lfloor>snd pos\<rfloor>))"
    using to_int_nonneg [OF assms(1,2)] to_int_nonneg [OF assms(3,4)]
    by (simp add: mapCorrection_Kernel_double2_def mapCorrection_Kernel_int2_def Let_def)
  have f: "0 \<le> fst pos - real_of_int \<lfloor>fst pos\<rfloor>" "fst pos - real_of_int \<lfloor>fst pos\<rfloor> < 1"
    "0 \<le> snd pos - real_of_int \<lfloor>snd pos\<rfloor>" "snd pos - real_of_int \<lfloor>snd pos\<rfloor> < 1"
    by linarith+
  have "real_of_int ?wx \<le> real_of_int (fst size2) - 1" "real_of_int ?wy \<le> real_of_int (snd size2) - 1"
    using wx wy by linarith+
  then show ?thesis
    unfolding r using wx wy f by simp
qed

lemma to_int_out_of_range: "to_int (3 * 10 ^ 9) = None"
  by code_simp

text \<open>
  C2 (the code departs from the claim). The claim: for every position, integer or
  fractional, and every positive size the correction yields a value in \<open>[0, s)\<close> in each
  coordinate and is idempotent. The integer overload does so (lemmas
  \<open>mapCorrection_coord_range\<close> and \<open>mapCorrection_coord_idem\<close>). The double overload
  cuts the position toward zero, so a negative position whose integer part is a multiple of
  the size keeps its negative fractional part: on a 10 x 10 world the position
  \<open>(-1/2, -1/2)\<close> is returned as it is, outside \<open>[0, 10)\<close>.
\<close>

theorem mapCorrection_Kernel_double2_negative_fraction:
  "mapCorrection_Kernel_double2 (- (1 / 2), - (1 / 2)) (10, 10) = Some (- (1 / 2), - (1 / 2))
   \<and> (- (1 / 2) :: real) < 0"
  by code_simp

subsection \<open>The cells the neighbour search reads\<close>

lemma readCellMap_Kernel_probes:
  assumes "- (2 ^ 31) + 3 \<le> px" and "px < 2 ^ 31 - 1"
    and "- (2 ^ 31) + 1 \<le> py" and "py < 2 ^ 31 - 5"
  shows "readCellMap_Kernel LAYERS cellStore (px, py) clusterP cmap size2 =
         first_found (\<lambda>(dx, dy). readCellMapHelper_Kernel LAYERS cellStore (px + dx, py + dy) clusterP cmap size2)
           readCellMap_offsets"
  using assms
  by (simp add: readCellMap_Kernel_def readCellMap_offsets_def Let_def wrap32_id add.commute
      cong: option.case_cong)

lemma readCellMap_offsets_miss_centre: "(0, 0) \<notin> set readCellMap_offsets"
  by (simp add: readCellMap_offsets_def)

lemma readCellMap_offsets_not_3x3: "set readCellMap_offsets \<noteq> set neighbourhood3x3"
proof
  assume "set readCellMap_offsets = set neighbourhood3x3"
  moreover have "(0, 0) \<in> set neighbourhood3x3"
    by (simp add: neighbourhood3x3_def)
  ultimately show False
    using readCellMap_offsets_miss_centre by simp
qed

text \<open>
  C5 (the code departs from the claim). The claim: the search reads the nine cells with
  both offsets in \<open>{-1, 0, 1}\<close> and returns the first entity of another cluster it finds.
  After its first row the function goes on incrementing \<open>posInt.y\<close> where the next column
  is meant, so the cells read are those of \<open>readCellMap_offsets\<close>; the query cell itself is
  not among them. On a 10 x 10 world with two layers, a cell of cluster 2 stored at the
  query cell \<open>(5, 5)\<close> (map entry 55) is not found by a search from cluster 1.
\<close>

theorem readCellMap_Kernel_misses_query_cell:
  "readCellMap_Kernel 2 (\<lambda>_. \<lparr>cluster = 2\<rparr>) (5, 5) 1 (Map.empty(55 \<mapsto> 7)) (10, 10) = None
   \<and> readCellMapHelper_Kernel 2 (\<lambda>_. \<lparr>cluster = 2\<rparr>) (5, 5) 1 (Map.empty(55 \<mapsto> 7)) (10, 10) = Some 7"
  by code_simp

section \<open>Properties of the hash map\<close>

subsection \<open>Scans\<close>

lemma scan_path_0 [simp]: "scan_path n index 0 = []"
  by (simp add: scan_path_def)

lemma scan_path_Suc:
  "index < n \<Longrightarrow> scan_path n index (Suc m) = index # scan_path n ((index + 1) mod n) m"
proof -
  assume a: "index < n"
  have "[0..<Suc m] = 0 # map Suc [0..<m]"
    by (simp add: upt_conv_Cons map_Suc_upt del: upt_Suc)
  then show ?thesis
    using a by (simp add: scan_path_def comp_def mod_add_left_eq del: upt_Suc)
qed

lemma scan_path_bound: "0 < n \<Longrightarrow> i \<in> set (scan_path n index m) \<Longrightarrow> i < n"
  by (auto simp: scan_path_def)

lemma same_content_length: "same_content es es' \<Longrightarrow> length es' = length es"
  unfolding same_content_def by (metis length_map)

lemma same_content_nth:
  "same_content es es' \<Longrightarrow> i < length es \<Longrightarrow> content (es' ! i) = content (es ! i)"
  unfolding same_content_def by (metis length_map nth_map)

lemma same_content_refl [simp]: "same_content es es"
  by (simp add: same_content_def)

lemma same_content_trans: "same_content a b \<Longrightarrow> same_content b c \<Longrightarrow> same_content a c"
  by (simp add: same_content_def)

lemma same_content_update:
  "i < length es \<Longrightarrow> content e = content (es ! i) \<Longrightarrow> same_content es (es[i := e])"
  by (simp add: same_content_def map_update list_update_same_conv)

lemma same_content_quiescent: "same_content es es' \<Longrightarrow> quiescent es \<Longrightarrow> quiescent es'"
proof -
  assume s: "same_content es es'" and q: "quiescent es"
  have "\<And>i. i < length es' \<Longrightarrow> e_locked (es' ! i) = 0 \<and> (e_free (es' ! i) = 0 \<or> e_free (es' ! i) = 1)"
  proof -
    fix i assume i: "i < length es'"
    then have i': "i < length es" using s by (simp add: same_content_length)
    have "content (es' ! i) = content (es ! i)" using s i' by (rule same_content_nth)
    moreover have "e_locked (es ! i) = 0 \<and> (e_free (es ! i) = 0 \<or> e_free (es ! i) = 1)"
      using q i' by (simp add: quiescent_def list_all_length)
    ultimately show "e_locked (es' ! i) = 0 \<and> (e_free (es' ! i) = 0 \<or> e_free (es' ! i) = 1)"
      by (simp add: content_def)
  qed
  then show ?thesis by (simp add: quiescent_def list_all_length)
qed

lemma ends_scan_same:
  "same_content es es' \<Longrightarrow> i < length es \<Longrightarrow> ends_scan es' key i = ends_scan es key i"
  using same_content_nth [of es es' i] by (simp add: ends_scan_def content_def)

lemma find_ends_same:
  assumes "same_content es es'" and "0 < length es"
  shows "find (ends_scan es' key) (scan_path (length es) index m)
       = find (ends_scan es key) (scan_path (length es) index m)"
proof (rule find_cong)
  fix i assume "i \<in> set (scan_path (length es) index m)"
  then have "i < length es"
    by (rule scan_path_bound [OF assms(2)])
  then show "ends_scan es' key i = ends_scan es key i"
    using assms(1) by (simp add: ends_scan_same)
qed simp

lemma quiescent_nth:
  "quiescent es \<Longrightarrow> i < length es \<Longrightarrow> e_locked (es ! i) = 0 \<and> (e_free (es ! i) = 0 \<or> e_free (es ! i) = 1)"
  by (simp add: quiescent_def list_all_length)

lemma getLock_release_content:
  "e_locked e = 0 \<Longrightarrow> getLock p e = Returns e' \<Longrightarrow> content (releaseLock e') = content e"
  by (auto simp: getLock_def releaseLock_def content_def)

lemma at_loop_char:
  assumes "quiescent es" and "index < length es" and "dummy < length es"
    and "m = length es - 1 - dummy"
  shows "case find (ends_scan es key) (scan_path (length es) index m) of
           None \<Rightarrow> at_loop dflt es key index dummy = Spins
         | Some i \<Rightarrow> \<exists>es'. at_loop dflt es key index dummy
                = Returns (if e_free (es ! i) = 0 then dflt else e_value (es ! i), es')
              \<and> same_content es es'"
  using assms
proof (induction m arbitrary: es index dummy)
  case 0
  then have "dummy + 1 = length es" by simp
  then show ?case
    by (subst at_loop.simps) simp
next
  case (Suc m)
  let ?n = "length es"
  let ?e = "es ! index"
  have d: "dummy + 1 \<noteq> ?n" "\<not> ?n \<le> dummy" "\<not> ?n \<le> index"
    using Suc.prems by simp_all
  have q: "e_locked ?e = 0" "e_free ?e = 0 \<or> e_free ?e = 1"
    using quiescent_nth [OF Suc.prems(1,2)] by simp_all
  obtain e' where e': "getLock 3 ?e = Returns e'" "content (releaseLock e') = content ?e"
    "getFree e' = e_free ?e" "getKey e' = e_key ?e" "getValue e' = e_value ?e"
    using q(1) by (simp add: getLock_def releaseLock_def content_def getFree_def getKey_def getValue_def)
  let ?es2 = "es[index := releaseLock e']"
  have sc: "same_content es ?es2"
    using Suc.prems(2) e'(2) by (simp add: same_content_update)
  have path: "scan_path ?n index (Suc m) = index # scan_path ?n ((index + 1) mod ?n) m"
    using Suc.prems(2) by (rule scan_path_Suc)
  have ne: "0 < ?n"
    using Suc.prems(2) by (cases es) auto
  have nx: "(index + 1) mod ?n < ?n"
    using ne by (rule mod_less_divisor)
  show ?case
  proof (cases "ends_scan es key index")
    case True
    then have "find (ends_scan es key) (scan_path ?n index (Suc m)) = Some index"
      by (simp add: path)
    moreover have "at_loop dflt es key index dummy
        = Returns (if e_free ?e = 0 then dflt else e_value ?e, ?es2)"
      using True d e' q(2) by (subst at_loop.simps) (auto simp: ends_scan_def Let_def)
    ultimately show ?thesis
      using sc by auto
  next
    case False
    then have f: "find (ends_scan es key) (scan_path ?n index (Suc m))
        = find (ends_scan es key) (scan_path ?n ((index + 1) mod ?n) m)"
      by (simp add: path)
    have step: "at_loop dflt es key index dummy
        = at_loop dflt ?es2 key ((index + 1) mod ?n) (dummy + 1)"
      using False d e' q(2) by (subst at_loop.simps) (auto simp: ends_scan_def Let_def)
    have q2: "quiescent ?es2"
      using sc Suc.prems(1) by (rule same_content_quiescent)
    have len: "length ?es2 = ?n" by simp
    have ih: "case find (ends_scan ?es2 key) (scan_path (length ?es2) ((index + 1) mod ?n) m) of
           None \<Rightarrow> at_loop dflt ?es2 key ((index + 1) mod ?n) (dummy + 1) = Spins
         | Some i \<Rightarrow> \<exists>es'. at_loop dflt ?es2 key ((index + 1) mod ?n) (dummy + 1)
                = Returns (if e_free (?es2 ! i) = 0 then dflt else e_value (?es2 ! i), es')
              \<and> same_content ?es2 es'"
      using Suc.prems d nx by (intro Suc.IH q2) auto
    have fs: "find (ends_scan ?es2 key) (scan_path (length ?es2) ((index + 1) mod ?n) m)
        = find (ends_scan es key) (scan_path ?n ((index + 1) mod ?n) m)"
      using find_ends_same [OF sc ne, of key "(index + 1) mod ?n" m] by simp
    show ?thesis
    proof (cases "find (ends_scan es key) (scan_path ?n ((index + 1) mod ?n) m)")
      case None
      then show ?thesis using ih fs f step by simp
    next
      case (Some i)
      then have "i \<in> set (scan_path ?n ((index + 1) mod ?n) m)"
        by (auto simp: find_Some_iff)
      then have i: "i < ?n"
        by (rule scan_path_bound [OF ne])
      have c: "content (?es2 ! i) = content (es ! i)"
        using sc i by (rule same_content_nth)
      obtain es' where "at_loop dflt ?es2 key ((index + 1) mod ?n) (dummy + 1)
                = Returns (if e_free (?es2 ! i) = 0 then dflt else e_value (?es2 ! i), es')"
          and "same_content ?es2 es'"
        using ih fs Some by auto
      then have "at_loop dflt es key index dummy
                = Returns (if e_free (es ! i) = 0 then dflt else e_value (es ! i), es')
              \<and> same_content es es'"
        using c sc step by (auto simp: content_def intro: same_content_trans)
      then show ?thesis using f Some by auto
    qed
  qed
qed

lemma contains_loop_char:
  assumes "quiescent es" and "index < length es" and "i \<le> length es"
    and "m = length es - i"
  shows "\<exists>es'. contains_loop es key index i
            = Returns (case find (ends_scan es key) (scan_path (length es) index m) of
                         None \<Rightarrow> False | Some j \<Rightarrow> e_free (es ! j) \<noteq> 0, es')
          \<and> same_content es es'"
  using assms
proof (induction m arbitrary: es index i)
  case 0
  then have "\<not> i < length es" by simp
  then show ?case
    by (subst contains_loop.simps) simp
next
  case (Suc m)
  let ?n = "length es"
  let ?e = "es ! index"
  have d: "i < ?n" "\<not> ?n \<le> index"
    using Suc.prems by simp_all
  have q: "e_locked ?e = 0" "e_free ?e = 0 \<or> e_free ?e = 1"
    using quiescent_nth [OF Suc.prems(1,2)] by simp_all
  obtain e' where e': "getLock 2 ?e = Returns e'" "content (releaseLock e') = content ?e"
    "getFree e' = e_free ?e" "getKey e' = e_key ?e"
    using q(1) by (simp add: getLock_def releaseLock_def content_def getFree_def getKey_def)
  let ?es2 = "es[index := releaseLock e']"
  have sc: "same_content es ?es2"
    using Suc.prems(2) e'(2) by (simp add: same_content_update)
  have path: "scan_path ?n index (Suc m) = index # scan_path ?n ((index + 1) mod ?n) m"
    using Suc.prems(2) by (rule scan_path_Suc)
  have ne: "0 < ?n"
    using Suc.prems(2) by (cases es) auto
  have nx: "(index + 1) mod ?n < ?n"
    using ne by (rule mod_less_divisor)
  show ?case
  proof (cases "ends_scan es key index")
    case True
    then have "find (ends_scan es key) (scan_path ?n index (Suc m)) = Some index"
      by (simp add: path)
    moreover have "contains_loop es key index i = Returns (e_free ?e \<noteq> 0, ?es2)"
      using True d e' q(2) by (subst contains_loop.simps) (auto simp: ends_scan_def)
    ultimately show ?thesis
      using sc by auto
  next
    case False
    then have f: "find (ends_scan es key) (scan_path ?n index (Suc m))
        = find (ends_scan es key) (scan_path ?n ((index + 1) mod ?n) m)"
      by (simp add: path)
    have step: "contains_loop es key index i
        = contains_loop ?es2 key ((index + 1) mod ?n) (i + 1)"
      using False d e' q(2) by (subst contains_loop.simps) (auto simp: ends_scan_def)
    have q2: "quiescent ?es2"
      using sc Suc.prems(1) by (rule same_content_quiescent)
    have "\<exists>es'. contains_loop ?es2 key ((index + 1) mod ?n) (i + 1)
            = Returns (case find (ends_scan ?es2 key) (scan_path (length ?es2) ((index + 1) mod ?n) m) of
                         None \<Rightarrow> False | Some j \<Rightarrow> e_free (?es2 ! j) \<noteq> 0, es')
          \<and> same_content ?es2 es'"
      using Suc.prems d nx by (intro Suc.IH q2) auto
    then obtain es' where ih: "contains_loop ?es2 key ((index + 1) mod ?n) (i + 1)
            = Returns (case find (ends_scan ?es2 key) (scan_path (length ?es2) ((index + 1) mod ?n) m) of
                         None \<Rightarrow> False | Some j \<Rightarrow> e_free (?es2 ! j) \<noteq> 0, es')"
      and sc2: "same_content ?es2 es'"
      by blast
    have fs: "find (ends_scan ?es2 key) (scan_path (length ?es2) ((index + 1) mod ?n) m)
        = find (ends_scan es key) (scan_path ?n ((index + 1) mod ?n) m)"
      using find_ends_same [OF sc ne, of key "(index + 1) mod ?n" m] by simp
    have res: "(case find (ends_scan es key) (scan_path ?n ((index + 1) mod ?n) m) of
                 None \<Rightarrow> False | Some j \<Rightarrow> e_free (?es2 ! j) \<noteq> 0)
             = (case find (ends_scan es key) (scan_path ?n ((index + 1) mod ?n) m) of
                 None \<Rightarrow> False | Some j \<Rightarrow> e_free (es ! j) \<noteq> 0)"
    proof (cases "find (ends_scan es key) (scan_path ?n ((index + 1) mod ?n) m)")
      case None
      then show ?thesis by simp
    next
      case (Some j)
      then have "j \<in> set (scan_path ?n ((index + 1) mod ?n) m)"
        by (auto simp: find_Some_iff)
      then have "j < ?n"
        by (rule scan_path_bound [OF ne])
      then have "content (?es2 ! j) = content (es ! j)"
        using sc by (intro same_content_nth)
      then show ?thesis
        using Some by (simp add: content_def)
    qed
    have "same_content es es'"
      using sc sc2 by (rule same_content_trans)
    then show ?thesis
      using step ih fs f res by auto
  qed
qed

lemma same_content_update_both:
  "same_content a b \<Longrightarrow> content x = content y \<Longrightarrow> same_content (a[i := x]) (b[i := y])"
  by (simp add: same_content_def map_update)

lemma insertOrAssign_loop_char:
  assumes "quiescent es" and "index < length es" and "dummy < length es"
    and "m = length es - 1 - dummy"
  shows "case find (ends_scan es key) (scan_path (length es) index m) of
           None \<Rightarrow> insertOrAssign_loop es key v index dummy = Spins
         | Some i \<Rightarrow> \<exists>es'. insertOrAssign_loop es key v index dummy = Returns es'
              \<and> same_content (es[i := assigned key v (es ! i)]) es'"
  using assms
proof (induction m arbitrary: es index dummy)
  case 0
  then have "dummy + 1 = length es" by simp
  then show ?case
    by (subst insertOrAssign_loop.simps) simp
next
  case (Suc m)
  let ?n = "length es"
  let ?e = "es ! index"
  have d: "dummy + 1 \<noteq> ?n" "\<not> ?n \<le> dummy" "\<not> ?n \<le> index"
    using Suc.prems by simp_all
  have q: "e_locked ?e = 0" "e_free ?e = 0 \<or> e_free ?e = 1"
    using quiescent_nth [OF Suc.prems(1,2)] by simp_all
  obtain e' where e': "getLock 1 ?e = Returns e'" "e' = ?e\<lparr>e_locked := 1, e_who := 1\<rparr>"
    using q(1) by (simp add: getLock_def)
  have path: "scan_path ?n index (Suc m) = index # scan_path ?n ((index + 1) mod ?n) m"
    using Suc.prems(2) by (rule scan_path_Suc)
  have ne: "0 < ?n"
    using Suc.prems(2) by (cases es) auto
  have nx: "(index + 1) mod ?n < ?n"
    using ne by (rule mod_less_divisor)
  show ?case
  proof (cases "ends_scan es key index")
    case True
    then have fi: "find (ends_scan es key) (scan_path ?n index (Suc m)) = Some index"
      by (simp add: path)
    have "\<exists>e''. insertOrAssign_loop es key v index dummy = Returns (es[index := e''])
        \<and> content e'' = content (assigned key v ?e)"
      using True d e' q
      by (subst insertOrAssign_loop.simps)
        (auto simp: ends_scan_def Let_def setFree_def getKey_def setKey_def setValue_def
          releaseLock_def content_def assigned_def)
    then obtain e'' where "insertOrAssign_loop es key v index dummy = Returns (es[index := e''])"
      and "content e'' = content (assigned key v ?e)"
      by blast
    then have "insertOrAssign_loop es key v index dummy = Returns (es[index := e''])
        \<and> same_content (es[index := assigned key v ?e]) (es[index := e''])"
      by (simp add: same_content_update_both)
    then show ?thesis
      using fi by auto
  next
    case False
    then have f: "find (ends_scan es key) (scan_path ?n index (Suc m))
        = find (ends_scan es key) (scan_path ?n ((index + 1) mod ?n) m)"
      by (simp add: path)
    let ?es2 = "es[index := releaseLock (snd (setFree 1 e'))]"
    have c2: "content (releaseLock (snd (setFree 1 e'))) = content ?e"
      using False e'(2) q by (auto simp: ends_scan_def setFree_def releaseLock_def content_def)
    have sc: "same_content es ?es2"
      using Suc.prems(2) c2 by (simp add: same_content_update)
    have step: "insertOrAssign_loop es key v index dummy
        = insertOrAssign_loop ?es2 key v ((index + 1) mod ?n) (dummy + 1)"
      using False d e' q(2)
      by (subst insertOrAssign_loop.simps)
        (auto simp: ends_scan_def Let_def setFree_def getKey_def)
    have q2: "quiescent ?es2"
      using sc Suc.prems(1) by (rule same_content_quiescent)
    have ih: "case find (ends_scan ?es2 key) (scan_path (length ?es2) ((index + 1) mod ?n) m) of
           None \<Rightarrow> insertOrAssign_loop ?es2 key v ((index + 1) mod ?n) (dummy + 1) = Spins
         | Some i \<Rightarrow> \<exists>es'. insertOrAssign_loop ?es2 key v ((index + 1) mod ?n) (dummy + 1) = Returns es'
              \<and> same_content (?es2[i := assigned key v (?es2 ! i)]) es'"
      using Suc.prems d nx by (intro Suc.IH q2) auto
    have fs: "find (ends_scan ?es2 key) (scan_path (length ?es2) ((index + 1) mod ?n) m)
        = find (ends_scan es key) (scan_path ?n ((index + 1) mod ?n) m)"
      using find_ends_same [OF sc ne, of key "(index + 1) mod ?n" m] by simp
    show ?thesis
    proof (cases "find (ends_scan es key) (scan_path ?n ((index + 1) mod ?n) m)")
      case None
      then show ?thesis using ih fs f step by simp
    next
      case (Some i)
      then have "i \<in> set (scan_path ?n ((index + 1) mod ?n) m)"
        by (auto simp: find_Some_iff)
      then have i: "i < ?n"
        by (rule scan_path_bound [OF ne])
      have c: "content (?es2 ! i) = content (es ! i)"
        using sc i by (rule same_content_nth)
      then have ca: "content (assigned key v (es ! i)) = content (assigned key v (?es2 ! i))"
        by (simp add: content_def assigned_def)
      obtain es' where r: "insertOrAssign_loop ?es2 key v ((index + 1) mod ?n) (dummy + 1) = Returns es'"
          and s2: "same_content (?es2[i := assigned key v (?es2 ! i)]) es'"
        using ih fs Some by auto
      have "same_content (es[i := assigned key v (es ! i)]) (?es2[i := assigned key v (?es2 ! i)])"
        using sc ca by (rule same_content_update_both)
      then have "same_content (es[i := assigned key v (es ! i)]) es'"
        using s2 by (rule same_content_trans)
      then show ?thesis using f Some step r by auto
    qed
  qed
qed

lemma find_Some_mono:
  "find P xs = Some i \<Longrightarrow> Q i \<Longrightarrow> (\<And>x. x \<in> set xs \<Longrightarrow> \<not> P x \<Longrightarrow> \<not> Q x) \<Longrightarrow> find Q xs = Some i"
  by (induction xs) (auto split: if_splits)

lemma find_Some_append: "find P xs = Some i \<Longrightarrow> find P (xs @ ys) = Some i"
  by (induction xs) (auto split: if_splits)

lemma scan_path_snoc: "scan_path n index (Suc m) = scan_path n index m @ [(index + m) mod n]"
  by (simp add: scan_path_def)

lemma home_less: "es \<noteq> [] \<Longrightarrow> home hash es key < length es"
  using smod_int_range [of "int (length es)" "hash key"] by (auto simp: home_def)

lemma quiescent_assigned:
  assumes "quiescent es"
  shows "quiescent (es[i := assigned key v (es ! i)])"
proof -
  let ?es' = "es[i := assigned key v (es ! i)]"
  have "e_locked (?es' ! j) = 0 \<and> (e_free (?es' ! j) = 0 \<or> e_free (?es' ! j) = 1)"
    if "j < length es" for j
  proof (cases "j = i")
    case True
    then show ?thesis
      using that quiescent_nth [OF assms, of i] by (simp add: assigned_def)
  next
    case False
    then show ?thesis
      using that quiescent_nth [OF assms, of j] by simp
  qed
  then show ?thesis
    by (simp add: quiescent_def list_all_length)
qed

lemma insertOrAssign_char:
  assumes "quiescent es" and "insertOrAssign hash es key v = Returns es1"
  shows "es \<noteq> [] \<and> 0 \<le> hash key smod int (length es) \<and>
      (\<exists>i. find (ends_scan es key) (scan_path (length es) (home hash es key) (length es - 1)) = Some i
        \<and> same_content (es[i := assigned key v (es ! i)]) es1)"
proof -
  have ne: "es \<noteq> []" and h: "0 \<le> hash key smod int (length es)"
    and r: "insertOrAssign_loop es key v (home hash es key) 0 = Returns es1"
    using assms(2) by (auto simp: insertOrAssign_def home_def Let_def split: if_splits)
  have "case find (ends_scan es key) (scan_path (length es) (home hash es key) (length es - 1)) of
           None \<Rightarrow> insertOrAssign_loop es key v (home hash es key) 0 = Spins
         | Some i \<Rightarrow> \<exists>es'. insertOrAssign_loop es key v (home hash es key) 0 = Returns es'
              \<and> same_content (es[i := assigned key v (es ! i)]) es'"
    using ne by (intro insertOrAssign_loop_char assms(1) home_less) auto
  then show ?thesis
    using ne h r by (auto split: option.splits)
qed

lemma insertOrAssign_quiescent:
  assumes "quiescent es" and "insertOrAssign hash es key v = Returns es1"
  shows "quiescent es1"
proof -
  obtain i where "same_content (es[i := assigned key v (es ! i)]) es1"
    using insertOrAssign_char [OF assms] by blast
  then show ?thesis
    using quiescent_assigned [OF assms(1)] by (rule same_content_quiescent)
qed

lemma insertOrAssign_stored:
  assumes "quiescent es" and "insertOrAssign hash es key v = Returns es1"
  shows "stored hash es1 key v"
proof -
  let ?n = "length es"
  let ?path = "scan_path ?n (home hash es key) (?n - 1)"
  obtain i where ne: "es \<noteq> []" and h: "0 \<le> hash key smod int ?n"
    and f: "find (ends_scan es key) ?path = Some i"
    and sc: "same_content (es[i := assigned key v (es ! i)]) es1"
    using insertOrAssign_char [OF assms] by blast
  have len: "length es1 = ?n"
    using same_content_length [OF sc] by simp
  have n0: "0 < ?n"
    using ne by simp
  have "i \<in> set ?path"
    using f by (auto simp: find_Some_iff)
  then have i: "i < ?n"
    by (rule scan_path_bound [OF n0])
  have ci: "content (es1 ! i) = content (assigned key v (es ! i))"
    using same_content_nth [OF sc, of i] i by simp
  have q: "ends_scan es1 key i"
    using ci by (simp add: ends_scan_def content_def assigned_def)
  have "find (ends_scan es1 key) ?path = Some i"
  proof (rule find_Some_mono [where Q = "ends_scan es1 key", OF f q])
    fix x assume x: "x \<in> set ?path" and nx: "\<not> ends_scan es key x"
    have xl: "x < ?n"
      using x by (rule scan_path_bound [OF n0])
    have "x \<noteq> i"
      using nx f by (auto simp: find_Some_iff)
    then have "content (es1 ! x) = content (es ! x)"
      using same_content_nth [OF sc, of x] xl by simp
    then show "\<not> ends_scan es1 key x"
      using nx by (simp add: ends_scan_def content_def)
  qed
  moreover have "home hash es1 key = home hash es key"
    by (simp add: home_def len)
  ultimately show ?thesis
    using ne h ci len by (auto simp: stored_def content_def assigned_def)
qed

lemma stored_at:
  assumes "quiescent es" and "stored hash es key v"
  shows "\<exists>es'. at_hm hash dflt es key = Returns (v, es') \<and> same_content es es'"
proof -
  let ?n = "length es"
  obtain i where ne: "es \<noteq> []" and h: "0 \<le> hash key smod int ?n"
    and f: "find (ends_scan es key) (scan_path ?n (home hash es key) (?n - 1)) = Some i"
    and v: "e_free (es ! i) = 1" "e_value (es ! i) = v"
    using assms(2) by (auto simp: stored_def)
  have "case find (ends_scan es key) (scan_path ?n (home hash es key) (?n - 1)) of
           None \<Rightarrow> at_loop dflt es key (home hash es key) 0 = Spins
         | Some i \<Rightarrow> \<exists>es'. at_loop dflt es key (home hash es key) 0
                = Returns (if e_free (es ! i) = 0 then dflt else e_value (es ! i), es')
              \<and> same_content es es'"
    using ne by (intro at_loop_char assms(1) home_less) auto
  then show ?thesis
    using f v ne h by (auto simp: at_hm_def home_def Let_def)
qed

lemma stored_contains:
  assumes "quiescent es" and "stored hash es key v"
  shows "\<exists>es'. contains hash es key = Returns (True, es') \<and> same_content es es'"
proof -
  let ?n = "length es"
  obtain i where ne: "es \<noteq> []" and h: "0 \<le> hash key smod int ?n"
    and f: "find (ends_scan es key) (scan_path ?n (home hash es key) (?n - 1)) = Some i"
    and v: "e_free (es ! i) = 1"
    using assms(2) by (auto simp: stored_def)
  have n: "?n = Suc (?n - 1)"
    using ne by (cases es) auto
  have "find (ends_scan es key) (scan_path ?n (home hash es key) (Suc (?n - 1))) = Some i"
    using f by (simp only: scan_path_snoc find_Some_append)
  then have f': "find (ends_scan es key) (scan_path ?n (home hash es key) (?n - 0)) = Some i"
    using n by simp
  have "\<exists>es'. contains_loop es key (home hash es key) 0
            = Returns (case find (ends_scan es key) (scan_path ?n (home hash es key) (?n - 0)) of
                         None \<Rightarrow> False | Some j \<Rightarrow> e_free (es ! j) \<noteq> 0, es')
          \<and> same_content es es'"
    using ne by (intro contains_loop_char assms(1) home_less) auto
  then show ?thesis
    using f' v ne h by (auto simp: contains_def home_def Let_def)
qed

lemma stored_same_content:
  assumes "same_content es es'" and "stored hash es key v"
  shows "stored hash es' key v"
proof -
  let ?n = "length es"
  have len: "length es' = ?n"
    using assms(1) by (rule same_content_length)
  obtain i where ne: "es \<noteq> []" and h: "0 \<le> hash key smod int ?n"
    and f: "find (ends_scan es key) (scan_path ?n (home hash es key) (?n - 1)) = Some i"
    and v: "e_free (es ! i) = 1" "e_value (es ! i) = v"
    using assms(2) by (auto simp: stored_def)
  have n0: "0 < ?n"
    using ne by simp
  have "i \<in> set (scan_path ?n (home hash es key) (?n - 1))"
    using f by (auto simp: find_Some_iff)
  then have "i < ?n"
    by (rule scan_path_bound [OF n0])
  then have "content (es' ! i) = content (es ! i)"
    using assms(1) by (intro same_content_nth)
  moreover have "find (ends_scan es' key) (scan_path ?n (home hash es key) (?n - 1)) = Some i"
    using find_ends_same [OF assms(1) n0] f by simp
  moreover have "home hash es' key = home hash es key"
    by (simp add: home_def len)
  ultimately show ?thesis
    using ne h v len by (auto simp: stored_def content_def)
qed

lemma stored_other_insert:
  assumes "quiescent es" and "stored hash es key v" and "key' \<noteq> key"
    and "insertOrAssign hash es key' v' = Returns es'"
  shows "stored hash es' key v"
proof -
  let ?n = "length es"
  let ?path = "scan_path ?n (home hash es key) (?n - 1)"
  obtain i where ne: "es \<noteq> []" and h: "0 \<le> hash key smod int ?n"
    and f: "find (ends_scan es key) ?path = Some i"
    and v: "e_free (es ! i) = 1" "e_value (es ! i) = v"
    using assms(2) by (auto simp: stored_def)
  obtain j where fj: "find (ends_scan es key') (scan_path ?n (home hash es key') (?n - 1)) = Some j"
    and sc: "same_content (es[j := assigned key' v' (es ! j)]) es'"
    using insertOrAssign_char [OF assms(1,4)] by blast
  have len: "length es' = ?n"
    using same_content_length [OF sc] by simp
  have n0: "0 < ?n"
    using ne by simp
  have "i \<in> set ?path"
    using f by (auto simp: find_Some_iff)
  then have i: "i < ?n"
    by (rule scan_path_bound [OF n0])
  have "j \<in> set (scan_path ?n (home hash es key') (?n - 1))"
    using fj by (auto simp: find_Some_iff)
  then have j: "j < ?n"
    by (rule scan_path_bound [OF n0])
  have ki: "e_key (es ! i) = key"
    using f v(1) by (auto simp: find_Some_iff ends_scan_def)
  have ej: "ends_scan es key' j"
    using fj by (auto simp: find_Some_iff)
  have "\<not> ends_scan es key' i"
    using ki v(1) assms(3) by (simp add: ends_scan_def)
  then have ij: "i \<noteq> j"
    using ej by auto
  have cx: "content (es' ! x) = content (es ! x)" if "x < ?n" "x \<noteq> j" for x
    using same_content_nth [OF sc, of x] that by simp
  have cj: "content (es' ! j) = content (assigned key' v' (es ! j))"
    using same_content_nth [OF sc, of j] j by simp
  have q: "ends_scan es' key i"
    using cx [OF i ij] ki v(1) by (simp add: ends_scan_def content_def)
  have "find (ends_scan es' key) ?path = Some i"
  proof (rule find_Some_mono [where Q = "ends_scan es' key", OF f q])
    fix x assume x: "x \<in> set ?path" and nx: "\<not> ends_scan es key x"
    have xl: "x < ?n"
      using x by (rule scan_path_bound [OF n0])
    show "\<not> ends_scan es' key x"
    proof (cases "x = j")
      case True
      then show ?thesis
        using cj assms(3) by (simp add: ends_scan_def content_def assigned_def)
    next
      case False
      then show ?thesis
        using cx [OF xl False] nx by (simp add: ends_scan_def content_def)
    qed
  qed
  moreover have "home hash es' key = home hash es key"
    by (simp add: home_def len)
  ultimately show ?thesis
    using ne h v len cx [OF i ij] by (auto simp: stored_def content_def)
qed

lemma contains_same_content:
  assumes "quiescent es" and "contains hash es key = Returns (b, es')"
  shows "same_content es es'"
proof -
  have ne: "es \<noteq> []" and r: "contains_loop es key (home hash es key) 0 = Returns (b, es')"
    using assms(2) by (auto simp: contains_def home_def Let_def split: if_splits)
  have "\<exists>es'. contains_loop es key (home hash es key) 0
            = Returns (case find (ends_scan es key) (scan_path (length es) (home hash es key) (length es - 0)) of
                         None \<Rightarrow> False | Some j \<Rightarrow> e_free (es ! j) \<noteq> 0, es')
          \<and> same_content es es'"
    using ne by (intro contains_loop_char assms(1) home_less) auto
  then show ?thesis
    using r by auto
qed

lemma at_same_content:
  assumes "quiescent es" and "at_hm hash dflt es key = Returns (r, es')"
  shows "same_content es es'"
proof -
  have ne: "es \<noteq> []" and r: "at_loop dflt es key (home hash es key) 0 = Returns (r, es')"
    using assms(2) by (auto simp: at_hm_def home_def Let_def split: if_splits)
  have "case find (ends_scan es key) (scan_path (length es) (home hash es key) (length es - 1)) of
           None \<Rightarrow> at_loop dflt es key (home hash es key) 0 = Spins
         | Some i \<Rightarrow> \<exists>es'. at_loop dflt es key (home hash es key) 0
                = Returns (if e_free (es ! i) = 0 then dflt else e_value (es ! i), es')
              \<and> same_content es es'"
    using ne by (intro at_loop_char assms(1) home_less) auto
  then show ?thesis
    using r by (auto split: option.splits)
qed

lemma run_call_stored:
  assumes "quiescent es" and "stored hash es key v" and "\<not> assigns key c"
    and "run_call hash dflt es c = Returns es'"
  shows "stored hash es' key v \<and> quiescent es'"
proof (cases c)
  case (InsertOrAssign k' v')
  then have "k' \<noteq> key" and r: "insertOrAssign hash es k' v' = Returns es'"
    using assms(3,4) by simp_all
  then show ?thesis
    using stored_other_insert [OF assms(1,2) _ r] insertOrAssign_quiescent [OF assms(1) r] by simp
next
  case (Contains k')
  then obtain b where "contains hash es k' = Returns (b, es')"
    using assms(4) by (auto split: outcome.splits)
  then have "same_content es es'"
    using assms(1) by (intro contains_same_content)
  then show ?thesis
    using assms(1,2) by (auto intro: stored_same_content same_content_quiescent)
next
  case (At k')
  then obtain r where "at_hm hash dflt es k' = Returns (r, es')"
    using assms(4) by (auto split: outcome.splits)
  then have "same_content es es'"
    using assms(1) by (intro at_same_content)
  then show ?thesis
    using assms(1,2) by (auto intro: stored_same_content same_content_quiescent)
qed

lemma run_calls_stored:
  assumes "quiescent es" and "stored hash es key v" and "\<not> list_ex (assigns key) cs"
    and "run_calls hash dflt es cs = Returns es'"
  shows "stored hash es' key v \<and> quiescent es'"
  using assms
proof (induction cs arbitrary: es)
  case Nil
  then show ?case by simp
next
  case (Cons c cs)
  then obtain es1 where r1: "run_call hash dflt es c = Returns es1"
    and r2: "run_calls hash dflt es1 cs = Returns es'"
    by (auto split: outcome.splits)
  have "stored hash es1 key v \<and> quiescent es1"
    using Cons.prems(1,2,3) r1 by (intro run_call_stored [of es hash key v c dflt es1]) auto
  then show ?case
    using Cons.IH [of es1] Cons.prems(3) r2 by simp
qed

lemma find_None_list_ex: "(find P xs = None) = (\<not> list_ex P xs)"
  by (auto simp: find_None_iff list_ex_iff)

text \<open>Whatever the allocator hands out, \<open>init_blockCall\<close> leaves a table between two
  calls, with every slot free.\<close>

lemma init_blockCall_quiescent: "quiescent (init_blockCall raw)"
  by (simp add: quiescent_def init_blockCall_def list_all_iff setFree_def initLock_def)

lemma init_blockCall_free: "e \<in> set (init_blockCall raw) \<Longrightarrow> e_free e = 0"
  by (auto simp: init_blockCall_def setFree_def initLock_def)

lemma init_blockCall_example:
  "init_blockCall [\<lparr>e_who = 7, e_free = 5, e_locked = 1, e_value = 99, e_key = 98\<rparr>,
                   \<lparr>e_who = 3, e_free = 1, e_locked = 0, e_value = 99, e_key = 98\<rparr>]
     = [free_entry, free_entry]"
  by code_simp

subsection \<open>Lookup after an assignment\<close>

text \<open>When one of the first \<open>_size - 1\<close> slots of its scan is free or holds the key,
  \<open>insertOrAssign\<close> returns.\<close>

lemma insertOrAssign_returns:
  assumes "quiescent es" and "es \<noteq> []" and "0 \<le> hash key"
    and "list_ex (ends_scan es key) (scan_path (length es) (home hash es key) (length es - 1))"
  shows "\<exists>es1. insertOrAssign hash es key v = Returns es1"
proof -
  let ?n = "length es"
  let ?h = "home hash es key"
  have h: "0 \<le> hash key smod int ?n"
    using assms(2,3) by (intro smod_int_compares(2)) auto
  have ie: "insertOrAssign hash es key v = insertOrAssign_loop es key v ?h 0"
    using assms(2) h by (simp add: insertOrAssign_def home_def Let_def)
  have c: "case find (ends_scan es key) (scan_path ?n ?h (?n - 1)) of
           None \<Rightarrow> insertOrAssign_loop es key v ?h 0 = Spins
         | Some i \<Rightarrow> \<exists>es'. insertOrAssign_loop es key v ?h 0 = Returns es'
              \<and> same_content (es[i := assigned key v (es ! i)]) es'"
    using assms(2) by (intro insertOrAssign_loop_char assms(1) home_less) auto
  obtain i where "find (ends_scan es key) (scan_path ?n ?h (?n - 1)) = Some i"
    using assms(4) find_None_list_ex [of "ends_scan es key" "scan_path ?n ?h (?n - 1)"] by auto
  then show ?thesis
    using c ie by auto
qed

text \<open>
  Whenever \<open>insertOrAssign(k, v)\<close> returns, \<open>contains(k)\<close> returns true and \<open>at(k)\<close>
  returns \<open>v\<close> right after it, and they still do after any further calls that return and do
  not assign to \<open>k\<close> (calls of \<open>contains\<close> and \<open>at\<close> on any key, \<open>insertOrAssign\<close> on other
  keys). The tables are those between two calls (no entry locked).
\<close>

lemma lookup_after_insertOrAssign:
  assumes "quiescent es"
    and "insertOrAssign hash es key v = Returns es1"
    and "\<not> list_ex (assigns key) cs"
    and "run_calls hash dflt es1 cs = Returns es2"
  shows "(\<exists>es'. contains hash es1 key = Returns (True, es'))
       \<and> (\<exists>es'. at_hm hash dflt es1 key = Returns (v, es'))
       \<and> (\<exists>es'. contains hash es2 key = Returns (True, es'))
       \<and> (\<exists>es'. at_hm hash dflt es2 key = Returns (v, es'))"
proof -
  have s1: "stored hash es1 key v" and q1: "quiescent es1"
    using assms(1,2) by (rule insertOrAssign_stored, rule insertOrAssign_quiescent)
  have s2: "stored hash es2 key v" and q2: "quiescent es2"
    using run_calls_stored [OF q1 s1 assms(3,4)] by simp_all
  show ?thesis
    using stored_contains [OF q1 s1] stored_at [OF q1 s1, of dflt]
      stored_contains [OF q2 s2] stored_at [OF q2 s2, of dflt]
    by blast
qed

lemma lookup_after_insertOrAssign_example:
  "insertOrAssign int [free_entry, free_entry, free_entry] 1 10
       = Returns [free_entry, used_entry 1 10, free_entry]
   \<and> run_calls int 0 [free_entry, used_entry 1 10, free_entry] [InsertOrAssign 4 20, Contains 1, At 4]
       = Returns [free_entry, used_entry 1 10, used_entry 4 20]
   \<and> contains int [free_entry, used_entry 1 10, used_entry 4 20] 1
       = Returns (True, [free_entry, used_entry 1 10\<lparr>e_who := 0\<rparr>, used_entry 4 20])
   \<and> at_hm int 0 [free_entry, used_entry 1 10, used_entry 4 20] 1
       = Returns (10, [free_entry, used_entry 1 10\<lparr>e_who := 0\<rparr>, used_entry 4 20])"
  by code_simp

text \<open>
  C3 (the code departs from the claim). The claim: for any sequence of calls whose number
  of distinct keys stays within the capacity, \<open>contains(k)\<close> is true right after
  \<open>insertOrAssign(k, v)\<close>. The code does this as long as the scan of \<open>insertOrAssign\<close>
  meets a free slot or the key within its first \<open>_size - 1\<close> slots (lemmas
  \<open>insertOrAssign_returns\<close> and \<open>lookup_after_insertOrAssign\<close>), and misses the last
  slot: the test \<open>++dummy == _size\<close> is made before the slot is read. In a table of two slots that holds the key 0 in slot 0,
  \<open>insertOrAssign(2, 12)\<close> (home slot 0, two distinct keys, capacity two) passes slot 0 and
  enters its \<open>while (true) {}\<close> without looking at the free slot 1, which \<open>contains(2)\<close>
  does read; the call never returns. A table of one slot takes no key at all.
\<close>

theorem insertOrAssign_spins_within_capacity:
  "insertOrAssign int [free_entry, free_entry] 0 10 = Returns [used_entry 0 10, free_entry]
   \<and> insertOrAssign int [used_entry 0 10, free_entry] 2 12 = Spins
   \<and> contains int [used_entry 0 10, free_entry] 2
       = Returns (False, [used_entry 0 10, free_entry\<lparr>e_who := 0\<rparr>])
   \<and> insertOrAssign int [free_entry] 0 10 = Spins"
  by code_simp

subsection \<open>Termination of the lookups\<close>

text \<open>
  C4 as the claim states it: \<open>at\<close> and \<open>contains\<close> return a miss when the whole table is
  scanned without a match. \<open>contains\<close> does; \<open>at\<close> does not: on the full table of two
  slots with the keys 0 and 1 (built by two assignments), \<open>at(2)\<close> enters its
  \<open>while (true) {}\<close>.
\<close>

theorem at_spins_on_full_table:
  "insertOrAssign int [used_entry 0 10, free_entry] 1 11 = Returns [used_entry 0 10, used_entry 1 11]
   \<and> at_hm int 0 [used_entry 0 10, used_entry 1 11] 2 = Spins
   \<and> contains int [used_entry 0 10, used_entry 1 11] 2
       = Returns (False, [used_entry 0 10, used_entry 1 11])"
  by code_simp

text \<open>
  C4, amended. On a table between two calls, for a key with a non-negative hash, both
  lookups scan forward from the hashed slot and leave every entry as it was and unlocked.
  \<open>contains\<close> always returns: true when the first slot of its scan that is free or holds
  the key holds the key, false when that slot is free, and false when the whole table is
  scanned without such a slot. \<open>at\<close> returns the stored value when its scan comes to the
  key and \<open>Value()\<close> when it comes to a free slot first; on a table that is full and does
  not hold the key it does not return a miss: it never returns. (What \<open>at\<close> does when
  only the last slot of its scan is free or holds the key is not part of the statement.)
\<close>

theorem lookups_return_or_spin:
  assumes "quiescent es" and "es \<noteq> []" and "0 \<le> hash key"
  shows "(\<exists>es'. contains hash es key
            = Returns (case find (ends_scan es key)
                              (scan_path (length es) (home hash es key) (length es)) of
                         None \<Rightarrow> False | Some i \<Rightarrow> e_free (es ! i) \<noteq> 0, es')
          \<and> same_content es es')
       \<and> (\<forall>i. find (ends_scan es key) (scan_path (length es) (home hash es key) (length es - 1))
                 = Some i
             \<longrightarrow> (\<exists>es'. at_hm hash dflt es key
                      = Returns (if e_free (es ! i) = 0 then dflt else e_value (es ! i), es')
                    \<and> same_content es es'))
       \<and> (\<not> list_ex (ends_scan es key) (scan_path (length es) (home hash es key) (length es))
             \<longrightarrow> at_hm hash dflt es key = Spins)"
proof -
  let ?n = "length es"
  let ?h = "home hash es key"
  have h: "0 \<le> hash key smod int ?n"
    using assms(2,3) by (intro smod_int_compares(2)) auto
  have hl: "?h < ?n"
    using assms(2) by (rule home_less)
  have c: "\<exists>es'. contains_loop es key ?h 0
            = Returns (case find (ends_scan es key) (scan_path ?n ?h (?n - 0)) of
                         None \<Rightarrow> False | Some j \<Rightarrow> e_free (es ! j) \<noteq> 0, es')
          \<and> same_content es es'"
    using assms(2) by (intro contains_loop_char assms(1) hl) auto
  have ce: "contains hash es key = contains_loop es key ?h 0"
    using assms(2) h by (simp add: contains_def home_def Let_def)
  have a: "case find (ends_scan es key) (scan_path ?n ?h (?n - 1)) of
           None \<Rightarrow> at_loop dflt es key ?h 0 = Spins
         | Some i \<Rightarrow> \<exists>es'. at_loop dflt es key ?h 0
                = Returns (if e_free (es ! i) = 0 then dflt else e_value (es ! i), es')
              \<and> same_content es es'"
    using assms(2) by (intro at_loop_char assms(1) hl) auto
  have ae: "at_hm hash dflt es key = at_loop dflt es key ?h 0"
    using assms(2) h by (simp add: at_hm_def home_def Let_def)
  have 1: "\<exists>es'. contains hash es key
            = Returns (case find (ends_scan es key) (scan_path ?n ?h ?n) of
                         None \<Rightarrow> False | Some i \<Rightarrow> e_free (es ! i) \<noteq> 0, es')
          \<and> same_content es es'"
    using c ce by simp
  have 2: "\<forall>i. find (ends_scan es key) (scan_path ?n ?h (?n - 1)) = Some i
             \<longrightarrow> (\<exists>es'. at_hm hash dflt es key
                      = Returns (if e_free (es ! i) = 0 then dflt else e_value (es ! i), es')
                    \<and> same_content es es')"
    using a ae by auto
  have 3: "at_hm hash dflt es key = Spins"
    if no: "\<not> list_ex (ends_scan es key) (scan_path ?n ?h ?n)"
  proof -
    have "set (scan_path ?n ?h (?n - 1)) \<subseteq> set (scan_path ?n ?h ?n)"
      by (auto simp: scan_path_def)
    then have "\<not> list_ex (ends_scan es key) (scan_path ?n ?h (?n - 1))"
      using no by (auto simp: list_ex_iff)
    then have "find (ends_scan es key) (scan_path ?n ?h (?n - 1)) = None"
      by (simp add: find_None_list_ex)
    then show ?thesis
      using a ae by simp
  qed
  show ?thesis
    using 1 2 3 by blast
qed

theorem lookups_return_or_spin_witness:
  "quiescent [used_entry 0 10, used_entry 1 11]
   \<and> [used_entry 0 10, used_entry 1 11] \<noteq> []
   \<and> (0::int) \<le> int 2
   \<and> at_hm int 0 [used_entry 0 10, used_entry 1 11] 2 = Spins
   \<and> (\<exists>es'. contains int [used_entry 0 10, used_entry 1 11] 2 = Returns (False, es'))
   \<and> (\<exists>es'. at_hm int 0 [used_entry 0 10, used_entry 1 11] 1 = Returns (11, es'))
   \<and> (\<exists>es'. contains int [used_entry 0 10, used_entry 1 11] 1 = Returns (True, es'))
   \<and> quiescent [used_entry 0 10, free_entry, free_entry]
   \<and> (\<exists>es'. at_hm int 77 [used_entry 0 10, free_entry, free_entry] 3 = Returns (77, es'))"
proof -
  let ?t = "[used_entry 0 10, used_entry 1 11]"
  let ?u = "[used_entry 0 10, free_entry, free_entry]"
  have h1: "quiescent ?t" "quiescent ?u"
    by code_simp+
  have h2: "?t \<noteq> []" "?u \<noteq> []"
    by simp_all
  have c2: "\<not> list_ex (ends_scan ?t 2) (scan_path (length ?t) (home int ?t 2) (length ?t))"
    by code_simp
  have f2: "find (ends_scan ?t 2) (scan_path (length ?t) (home int ?t 2) (length ?t)) = None"
    by code_simp
  have a1: "find (ends_scan ?t 1) (scan_path (length ?t) (home int ?t 1) (length ?t - 1)) = Some 1"
    "find (ends_scan ?t 1) (scan_path (length ?t) (home int ?t 1) (length ?t)) = Some 1"
    "e_free (?t ! 1) = 1" "e_value (?t ! 1) = 11"
    by code_simp+
  have a3: "find (ends_scan ?u 3) (scan_path (length ?u) (home int ?u 3) (length ?u - 1)) = Some 1"
    "e_free (?u ! 1) = 0"
    by code_simp+
  have "at_hm int 0 ?t 2 = Spins" "\<exists>es'. contains int ?t 2 = Returns (False, es')"
    using lookups_return_or_spin [OF h1(1) h2(1), of int 2 0] c2 f2 by auto
  moreover have "\<exists>es'. at_hm int 0 ?t 1 = Returns (11, es')"
    "\<exists>es'. contains int ?t 1 = Returns (True, es')"
    using lookups_return_or_spin [OF h1(1) h2(1), of int 1 0] a1 by auto
  moreover have "\<exists>es'. at_hm int 77 ?u 3 = Returns (77, es')"
    using lookups_return_or_spin [OF h1(2) h2(2), of int 3 77] a3 by auto
  ultimately show ?thesis
    using h1 by simp
qed

section \<open>Properties of the particle passes\<close>

subsection \<open>Float arithmetic\<close>

lemma fadd_fneg: "fadd e (fneg e) = (if is_finite e then Finite 0 else NaN)"
  by (cases e) (auto simp: fadd_def)

subsection \<open>The loop of a pass\<close>

lemma particle_loop_step:
  "i \<le> e \<Longrightarrow> particle_loop body i e d
     = (case body d i of Inl f \<Rightarrow> Inl f | Inr d' \<Rightarrow> particle_loop body (i + 1) e d')"
  by (subst particle_loop.simps) simp

lemma particle_loop_done: "e < i \<Longrightarrow> particle_loop body i e d = Inr d"
  by (subst particle_loop.simps) simp

lemma particle_loop_invariant:
  assumes "particle_loop body i e d = Inr d'"
    and "P d"
    and "\<And>d j d1. P d \<Longrightarrow> i \<le> j \<Longrightarrow> j \<le> e \<Longrightarrow> body d j = Inr d1 \<Longrightarrow> P d1"
  shows "P d'"
  using assms
proof (induction body i e d rule: particle_loop.induct)
  case (1 body i e d)
  show ?case
  proof (cases "i \<le> e")
    case False
    then show ?thesis
      using "1.prems"(1,2) by (simp add: particle_loop_done)
  next
    case True
    then obtain d1 where b: "body d i = Inr d1"
      and r: "particle_loop body (i + 1) e d1 = Inr d'"
      using "1.prems"(1) by (auto simp: particle_loop_step split: sum.splits)
    have p1: "P d1"
      using "1.prems"(2) True b by (intro "1.prems"(3) [of d i d1]) auto
    show ?thesis
    proof (rule "1.IH" [OF True b r p1])
      fix d2 j d3
      assume "P d2" "i + 1 \<le> j" "j \<le> e" "body d2 j = Inr d3"
      then show "P d3"
        by (intro "1.prems"(3) [of d2 j d3]) auto
    qed
  qed
qed

lemma particle_loop_returns:
  assumes "\<And>d j. particlePointers d j \<noteq> None
      \<Longrightarrow> \<exists>d1. body d j = Inr d1 \<and> particlePointers d1 = particlePointers d"
    and "\<forall>j. i \<le> j \<and> j \<le> e \<longrightarrow> particlePointers d j \<noteq> None"
  shows "\<exists>d'. particle_loop body i e d = Inr d' \<and> particlePointers d' = particlePointers d"
  using assms
proof (induction body i e d rule: particle_loop.induct)
  case (1 body i e d)
  show ?case
  proof (cases "i \<le> e")
    case False
    then show ?thesis
      by (simp add: particle_loop_done)
  next
    case True
    then have "particlePointers d i \<noteq> None"
      using "1.prems"(2) by simp
    then obtain d1 where b: "body d i = Inr d1" and pp: "particlePointers d1 = particlePointers d"
      using "1.prems"(1) [of d i] by blast
    have "\<forall>j. i + 1 \<le> j \<and> j \<le> e \<longrightarrow> particlePointers d1 j \<noteq> None"
      using "1.prems"(2) pp by simp
    then obtain d' where "particle_loop body (i + 1) e d1 = Inr d'"
      and "particlePointers d' = particlePointers d1"
      using "1.IH" [OF True b "1.prems"(1)] by blast
    then show ?thesis
      using True b pp by (simp add: particle_loop_step)
  qed
qed

subsection \<open>Collision\<close>

text \<open>The iteration of the collision loop on a pair it resolves: the array element points to
  a particle, the map returns another particle at its position, both are alive and both lock
  words are free.\<close>

lemma processingCollision_body_resolved:
  assumes "particlePointers d particleIndex = Some particle"
    and "particleMap d (absPos (particles d particle)) = Some otherParticle"
    and "otherParticle \<noteq> particle"
    and "alive (particles d particle)" and "alive (particles d otherParticle)"
    and "locked (particles d particle) = 0" and "locked (particles d otherParticle) = 0"
  shows "processingCollision_body d particleIndex
     = Inr (d\<lparr>particles := (particles d)
          (particle := (particles d particle)
             \<lparr>vel := add2
                (scale2 (vel (particles d particle))
                   (fdiv (energy (particles d particle))
                      (fadd (energy (particles d particle)) (energy (particles d otherParticle)))))
                (scale2 (vel (particles d otherParticle))
                   (fsub (Finite 1)
                      (fdiv (energy (particles d particle))
                         (fadd (energy (particles d particle)) (energy (particles d otherParticle)))))),
              energy := fadd (energy (particles d particle)) (energy (particles d otherParticle)),
              locked := 0\<rparr>,
           otherParticle := (particles d otherParticle)
             \<lparr>energy := fadd (energy (particles d otherParticle))
                          (fneg (energy (particles d otherParticle))),
              alive := False, locked := 0\<rparr>)\<rparr>)"
proof -
  have lock: "DoubleLock_tryLock particle otherParticle (particles d)
      = (True, (particles d)(particle := (particles d particle)\<lparr>locked := 1\<rparr>,
                             otherParticle := (particles d otherParticle)\<lparr>locked := 1\<rparr>))"
    using assms(6,7) by (simp add: DoubleLock_tryLock_def)
  show ?thesis
    using assms(1-5)
    by (simp add: processingCollision_body_def lock DoubleLock_releaseLock_def Let_def
        fun_upd_twist)
qed

lemma collision_example_pair:
  "particlePointers (collision_example e1 e2) 0 = Some 0"
  "particleMap (collision_example e1 e2) (absPos (particles (collision_example e1 e2) 0)) = Some 1"
  by (simp_all add: collision_example_def particle_at_def)

lemma collision_example_free:
  "alive (particles (collision_example e1 e2) 0)"
  "alive (particles (collision_example e1 e2) 1)"
  "locked (particles (collision_example e1 e2) 0) = 0"
  "locked (particles (collision_example e1 e2) 1) = 0"
  by (simp_all add: collision_example_def particle_at_def)

lemma collision_example_fields:
  "particles (collision_example e1 e2) 0 = particle_at (5 / 2) (7 / 2) 1 0 e1 True"
  "particles (collision_example e1 e2) 1 = particle_at (11 / 4) (13 / 4) (- 1) 0 e2 True"
  by (simp_all add: collision_example_def)

text \<open>
  C1 as the claim states it: the sum of the two energies is the same before and after the
  merge, and the new velocity is \<open>v1 * e1 / (e1 + e2) + v2 * e2 / (e1 + e2)\<close>. The energies
  are floats and every operation rounds. For the energies \<open>2^24\<close> and 1 the survivor ends
  with \<open>2^24\<close> and the absorbed particle with 0: the sum was \<open>2^24 + 1\<close>. For the energies
  4 and 6 and the velocities \<open>(1, 0)\<close> and \<open>(-1, 0)\<close> the weights are the floats next to
  0.4 and 0.6 and the new velocity is \<open>-6710887 / 2^25\<close>, not \<open>-0.2\<close>.
\<close>

theorem collision_merge_rounds:
  "processingCollision_body (collision_example (2 ^ 24) 1) 0
     = Inr ((collision_example (2 ^ 24) 1)
         \<lparr>particles := (particles (collision_example (2 ^ 24) 1))
            (0 := particle_at (5 / 2) (7 / 2) 1 0 (2 ^ 24) True,
             1 := particle_at (11 / 4) (13 / 4) (- 1) 0 0 False)\<rparr>)
   \<and> processingCollision_body (collision_example 4 6) 0
     = Inr ((collision_example 4 6)
         \<lparr>particles := (particles (collision_example 4 6))
            (0 := particle_at (5 / 2) (7 / 2) (- (6710887 / 2 ^ 25)) 0 10 True,
             1 := particle_at (11 / 4) (13 / 4) (- 1) 0 0 False)\<rparr>)"
proof -
  have a: "add2 (scale2 (Finite 1, Finite 0) (fdiv (Finite (2 ^ 24)) (fadd (Finite (2 ^ 24)) (Finite 1))))
             (scale2 (Finite (- 1), Finite 0)
                (fsub (Finite 1) (fdiv (Finite (2 ^ 24)) (fadd (Finite (2 ^ 24)) (Finite 1)))))
           = (Finite 1, Finite 0)"
    "fadd (Finite (2 ^ 24)) (Finite 1) = Finite (2 ^ 24)"
    "fadd (Finite 1) (fneg (Finite 1)) = Finite 0"
    by code_simp+
  have b: "add2 (scale2 (Finite 1, Finite 0) (fdiv (Finite 4) (fadd (Finite 4) (Finite 6))))
             (scale2 (Finite (- 1), Finite 0)
                (fsub (Finite 1) (fdiv (Finite 4) (fadd (Finite 4) (Finite 6)))))
           = (Finite (- (6710887 / 2 ^ 25)), Finite 0)"
    "fadd (Finite 4) (Finite 6) = Finite 10"
    "fadd (Finite 6) (fneg (Finite 6)) = Finite 0"
    by code_simp+
  have 1: "processingCollision_body (collision_example (2 ^ 24) 1) 0
     = Inr ((collision_example (2 ^ 24) 1)
         \<lparr>particles := (particles (collision_example (2 ^ 24) 1))
            (0 := particle_at (5 / 2) (7 / 2) 1 0 (2 ^ 24) True,
             1 := particle_at (11 / 4) (13 / 4) (- 1) 0 0 False)\<rparr>)"
    unfolding processingCollision_body_resolved [OF collision_example_pair one_neq_zero collision_example_free]
      collision_example_fields
    using a by (simp add: particle_at_def)
  have 2: "processingCollision_body (collision_example 4 6) 0
     = Inr ((collision_example 4 6)
         \<lparr>particles := (particles (collision_example 4 6))
            (0 := particle_at (5 / 2) (7 / 2) (- (6710887 / 2 ^ 25)) 0 10 True,
             1 := particle_at (11 / 4) (13 / 4) (- 1) 0 0 False)\<rparr>)"
    unfolding processingCollision_body_resolved [OF collision_example_pair one_neq_zero collision_example_free]
      collision_example_fields
    using b by (simp add: particle_at_def)
  show ?thesis
    using 1 2 by (rule conjI)
qed

text \<open>
  C1, amended. For a pair the collision pass resolves, the iteration returns; the surviving
  particle holds the float sum of the two energies and stays alive; the absorbed particle is
  marked dead and holds its energy plus its negated energy, which is zero for every energy
  that is a number; the new velocity of the survivor is \<open>v1 * f1 + v2 * f2\<close> in floats,
  with the weights \<open>f1 = e1 / (e1 + e2)\<close> and \<open>f2 = 1 - f1\<close>; both lock words are free
  again, and nothing else changes.
\<close>

theorem collision_merge:
  assumes "particlePointers d particleIndex = Some particle"
    and "particleMap d (absPos (particles d particle)) = Some otherParticle"
    and "otherParticle \<noteq> particle"
    and "alive (particles d particle)" and "alive (particles d otherParticle)"
    and "locked (particles d particle) = 0" and "locked (particles d otherParticle) = 0"
  shows "\<exists>d'. processingCollision_body d particleIndex = Inr d'
     \<and> energy (particles d' particle)
         = fadd (energy (particles d particle)) (energy (particles d otherParticle))
     \<and> energy (particles d' otherParticle)
         = (if is_finite (energy (particles d otherParticle)) then Finite 0 else NaN)
     \<and> vel (particles d' particle)
         = (let factor1 = fdiv (energy (particles d particle))
                            (fadd (energy (particles d particle)) (energy (particles d otherParticle)));
                factor2 = fsub (Finite 1) factor1
            in add2 (scale2 (vel (particles d particle)) factor1)
                    (scale2 (vel (particles d otherParticle)) factor2))
     \<and> alive (particles d' particle) \<and> \<not> alive (particles d' otherParticle)
     \<and> locked (particles d' particle) = 0 \<and> locked (particles d' otherParticle) = 0
     \<and> absPos (particles d' particle) = absPos (particles d particle)
     \<and> absPos (particles d' otherParticle) = absPos (particles d otherParticle)
     \<and> vel (particles d' otherParticle) = vel (particles d otherParticle)
     \<and> (\<forall>p. p \<noteq> particle \<and> p \<noteq> otherParticle \<longrightarrow> particles d' p = particles d p)
     \<and> d'\<lparr>particles := particles d\<rparr> = d"
  unfolding processingCollision_body_resolved [OF assms]
  using assms(3,4) by (simp add: Let_def fadd_fneg)

theorem collision_merge_witness:
  "particlePointers (collision_example 2 6) 0 = Some 0
   \<and> particleMap (collision_example 2 6) (absPos (particles (collision_example 2 6) 0)) = Some 1
   \<and> (1::nat) \<noteq> 0
   \<and> alive (particles (collision_example 2 6) 0) \<and> alive (particles (collision_example 2 6) 1)
   \<and> locked (particles (collision_example 2 6) 0) = 0
   \<and> locked (particles (collision_example 2 6) 1) = 0
   \<and> (\<exists>d'. processingCollision_body (collision_example 2 6) 0 = Inr d'
        \<and> energy (particles d' 0) = Finite 8
        \<and> energy (particles d' 1) = Finite 0
        \<and> vel (particles d' 0) = (Finite (- (1 / 2)), Finite 0)
        \<and> alive (particles d' 0) \<and> \<not> alive (particles d' 1))"
proof -
  let ?d = "collision_example 2 6"
  have v: "fadd (energy (particles ?d 0)) (energy (particles ?d 1)) = Finite 8"
    "is_finite (energy (particles ?d 1))"
    "(let factor1 = fdiv (energy (particles ?d 0))
                            (fadd (energy (particles ?d 0)) (energy (particles ?d 1)));
          factor2 = fsub (Finite 1) factor1
      in add2 (scale2 (vel (particles ?d 0)) factor1) (scale2 (vel (particles ?d 1)) factor2))
       = (Finite (- (1 / 2)), Finite 0)"
    unfolding collision_example_fields by code_simp+
  from collision_merge [OF collision_example_pair one_neq_zero collision_example_free, of 2 6] obtain d' where
    r: "processingCollision_body ?d 0 = Inr d'"
    and e: "energy (particles d' 0) = fadd (energy (particles ?d 0)) (energy (particles ?d 1))"
      "energy (particles d' 1) = (if is_finite (energy (particles ?d 1)) then Finite 0 else NaN)"
      "vel (particles d' 0)
         = (let factor1 = fdiv (energy (particles ?d 0))
                            (fadd (energy (particles ?d 0)) (energy (particles ?d 1)));
                factor2 = fsub (Finite 1) factor1
            in add2 (scale2 (vel (particles ?d 0)) factor1) (scale2 (vel (particles ?d 1)) factor2))"
    and a: "alive (particles d' 0)" "\<not> alive (particles d' 1)"
    by blast
  have "energy (particles d' 0) = Finite 8" "energy (particles d' 1) = Finite 0"
    "vel (particles d' 0) = (Finite (- (1 / 2)), Finite 0)"
    using e v by simp_all
  then show ?thesis
    using collision_example_pair [of 2 6] collision_example_free [of 2 6] r a by blast
qed

subsection \<open>Transformation\<close>

text \<open>An iteration of the transformation loop, in both cases.\<close>

lemma processingTransformation_body_char:
  assumes "particlePointers d particleIndex = Some particle"
  shows "processingTransformation_body params lke newCell d particleIndex
     = (let innerEnergy = fsub (energy (particles d particle))
              (lke (fdiv (Finite 1) (cellMass_Reciprocal params)) (vel (particles d particle)))
        in if fge innerEnergy (cellMinEnergy params) then
             if flt (shd (numberGen d)) (cellTransformationProb params) then
               let d1 = createClusterWithRandomCell newCell innerEnergy
                          (absPos (particles d particle)) (vel (particles d particle))
                          (d\<lparr>numberGen := stl (numberGen d)\<rparr>)
               in Inr (d1\<lparr>particles := (particles d)(particle := (particles d particle)\<lparr>alive := False\<rparr>)\<rparr>)
             else Inr (d\<lparr>numberGen := stl (numberGen d)\<rparr>)
           else Inr d)"
  using assms
  by (simp add: processingTransformation_body_def random_def createClusterWithRandomCell_def
      Let_def split: prod.splits)

lemma createClusterWithRandomCell_frame:
  "particles (createClusterWithRandomCell newCell e pos v d) = particles d"
  "particlePointers (createClusterWithRandomCell newCell e pos v d) = particlePointers d"
  "numParticlePointers (createClusterWithRandomCell newCell e pos v d) = numParticlePointers d"
  "numCells (createClusterWithRandomCell newCell e pos v d) = numCells d + 1"
  "c < numCells d \<Longrightarrow> cells (createClusterWithRandomCell newCell e pos v d) c = cells d c"
  by (simp_all add: createClusterWithRandomCell_def Let_def split: prod.splits)

text \<open>
  C6 as the claim states it: a particle converts only if its inner energy exceeds the
  configured minimum. The comparison of the source is \<open>>=\<close>: a resting particle of energy 10
  with the minimum at 10 and a draw of 1/4 against the probability 1/2 converts, though its
  inner energy does not exceed the minimum. The inner energy is the float the pass
  computes: a particle of energy 10 and velocity \<open>(2^-15, 0)\<close> has the kinetic energy
  \<open>2^-31\<close>, its inner energy rounds to 10, and it converts too.
\<close>

theorem transformation_at_minimum:
  "fsub (energy (particles (transformation_example 10 0) 0))
      (kinetic (fdiv (Finite 1) (cellMass_Reciprocal transformation_params))
         (vel (particles (transformation_example 10 0) 0)))
     = cellMinEnergy transformation_params
   \<and> processingTransformation_body transformation_params kinetic live_cell
       (transformation_example 10 0) 0
     = Inr ((transformation_example 10 0)
         \<lparr>particles := (particles (transformation_example 10 0))
            (0 := particle_at (5 / 2) (7 / 2) 0 0 10 False),
          cells := (cells (transformation_example 10 0))
            (0 := \<lparr>cell_absPos = (Finite (5 / 2), Finite (7 / 2)), cell_vel = (Finite 0, Finite 0),
                   cell_energy = Finite 10, cell_alive = True\<rparr>),
          numCells := 1\<rparr>)
   \<and> kinetic (fdiv (Finite 1) (cellMass_Reciprocal transformation_params))
         (vel (particles (transformation_example 10 (1 / 2 ^ 15)) 0))
     = Finite (1 / 2 ^ 31)
   \<and> processingTransformation_body transformation_params kinetic live_cell
       (transformation_example 10 (1 / 2 ^ 15)) 0
     = Inr ((transformation_example 10 (1 / 2 ^ 15))
         \<lparr>particles := (particles (transformation_example 10 (1 / 2 ^ 15)))
            (0 := particle_at (5 / 2) (7 / 2) (1 / 2 ^ 15) 0 10 False),
          cells := (cells (transformation_example 10 (1 / 2 ^ 15)))
            (0 := \<lparr>cell_absPos = (Finite (5 / 2), Finite (7 / 2)),
                   cell_vel = (Finite (1 / 2 ^ 15), Finite 0),
                   cell_energy = Finite 10, cell_alive = True\<rparr>),
          numCells := 1\<rparr>)"
proof -
  have p: "particlePointers (transformation_example e vx) 0 = Some 0" for e vx
    by (simp add: transformation_example_def)
  have k0: "kinetic (fdiv (Finite 1) (Finite 1)) (Finite 0, Finite 0) = Finite 0"
    "fsub (Finite 10) (Finite 0) = Finite 10"
    by code_simp+
  have k1: "kinetic (fdiv (Finite 1) (Finite 1)) (Finite (1 / 2 ^ 15), Finite 0) = Finite (1 / 2 ^ 31)"
    "fsub (Finite 10) (Finite (1 / 2 ^ 31)) = Finite 10"
    by code_simp+
  have c: "fge (Finite 10) (Finite 10)" "flt (Finite (1 / 4)) (Finite (1 / 2))"
    by code_simp+
  have 1: "fsub (energy (particles (transformation_example 10 0) 0))
      (kinetic (fdiv (Finite 1) (cellMass_Reciprocal transformation_params))
         (vel (particles (transformation_example 10 0) 0)))
     = cellMinEnergy transformation_params"
    by (simp add: transformation_example_def transformation_params_def particle_at_def k0)
  have 2: "processingTransformation_body transformation_params kinetic live_cell
       (transformation_example 10 0) 0
     = Inr ((transformation_example 10 0)
         \<lparr>particles := (particles (transformation_example 10 0))
            (0 := particle_at (5 / 2) (7 / 2) 0 0 10 False),
          cells := (cells (transformation_example 10 0))
            (0 := \<lparr>cell_absPos = (Finite (5 / 2), Finite (7 / 2)), cell_vel = (Finite 0, Finite 0),
                   cell_energy = Finite 10, cell_alive = True\<rparr>),
          numCells := 1\<rparr>)"
    unfolding processingTransformation_body_char [OF p]
    by (simp add: transformation_example_def transformation_params_def particle_at_def k0 c
        createClusterWithRandomCell_def live_cell_def Let_def)
  have 3: "kinetic (fdiv (Finite 1) (cellMass_Reciprocal transformation_params))
         (vel (particles (transformation_example 10 (1 / 2 ^ 15)) 0))
     = Finite (1 / 2 ^ 31)"
    using k1(1) by (simp add: transformation_example_def transformation_params_def particle_at_def)
  have 4: "processingTransformation_body transformation_params kinetic live_cell
       (transformation_example 10 (1 / 2 ^ 15)) 0
     = Inr ((transformation_example 10 (1 / 2 ^ 15))
         \<lparr>particles := (particles (transformation_example 10 (1 / 2 ^ 15)))
            (0 := particle_at (5 / 2) (7 / 2) (1 / 2 ^ 15) 0 10 False),
          cells := (cells (transformation_example 10 (1 / 2 ^ 15)))
            (0 := \<lparr>cell_absPos = (Finite (5 / 2), Finite (7 / 2)),
                   cell_vel = (Finite (1 / 2 ^ 15), Finite 0),
                   cell_energy = Finite 10, cell_alive = True\<rparr>),
          numCells := 1\<rparr>)"
    unfolding processingTransformation_body_char [OF p]
    using k1 c
    by (simp add: transformation_example_def transformation_params_def particle_at_def
        createClusterWithRandomCell_def live_cell_def Let_def)
  show ?thesis
    using 1 2 3 4 by blast
qed

text \<open>
  C6, amended: a particle converts exactly when its inner energy (its energy minus its
  linear kinetic energy, in floats) is at least the configured minimum and the random draw
  is below the configured probability. When it converts, the particle is marked dead
  (nothing else of it changes) and one new cell is allocated; otherwise the particles and
  the cells are unchanged.
\<close>

theorem transformation_step:
  assumes "particlePointers d particleIndex = Some particle"
  shows "\<exists>d'. processingTransformation_body params lke newCell d particleIndex = Inr d'
     \<and> (if fge (fsub (energy (particles d particle))
                  (lke (fdiv (Finite 1) (cellMass_Reciprocal params)) (vel (particles d particle))))
               (cellMinEnergy params)
           \<and> flt (shd (numberGen d)) (cellTransformationProb params)
         then particles d' = (particles d)(particle := (particles d particle)\<lparr>alive := False\<rparr>)
           \<and> numCells d' = numCells d + 1
         else particles d' = particles d \<and> numCells d' = numCells d \<and> cells d' = cells d)"
  unfolding processingTransformation_body_char [OF assms]
  by (simp add: Let_def createClusterWithRandomCell_frame)

theorem transformation_step_witness:
  "particlePointers (transformation_example 10 0) 0 = Some 0
   \<and> (\<exists>d'. processingTransformation_body transformation_params kinetic live_cell
              (transformation_example 10 0) 0 = Inr d'
        \<and> \<not> alive (particles d' 0) \<and> numCells d' = 1)
   \<and> particlePointers (transformation_example 9 0) 0 = Some 0
   \<and> (\<exists>d'. processingTransformation_body transformation_params kinetic live_cell
              (transformation_example 9 0) 0 = Inr d'
        \<and> particles d' = particles (transformation_example 9 0) \<and> numCells d' = 0)"
proof -
  have h: "particlePointers (transformation_example e vx) 0 = Some 0" for e vx
    by (simp add: transformation_example_def)
  have c1: "fge (fsub (energy (particles (transformation_example 10 0) 0))
                  (kinetic (fdiv (Finite 1) (cellMass_Reciprocal transformation_params))
                     (vel (particles (transformation_example 10 0) 0))))
               (cellMinEnergy transformation_params)
        \<and> flt (shd (numberGen (transformation_example 10 0)))
              (cellTransformationProb transformation_params)"
  proof -
    have "fge (fsub (Finite 10) (kinetic (fdiv (Finite 1) (Finite 1)) (Finite 0, Finite 0))) (Finite 10)"
      "flt (Finite (1 / 4)) (Finite (1 / 2))"
      by code_simp+
    then show ?thesis
      by (simp add: transformation_example_def transformation_params_def particle_at_def)
  qed
  have c2: "\<not> fge (fsub (energy (particles (transformation_example 9 0) 0))
                  (kinetic (fdiv (Finite 1) (cellMass_Reciprocal transformation_params))
                     (vel (particles (transformation_example 9 0) 0))))
               (cellMinEnergy transformation_params)"
  proof -
    have "\<not> fge (fsub (Finite 9) (kinetic (fdiv (Finite 1) (Finite 1)) (Finite 0, Finite 0))) (Finite 10)"
      by code_simp
    then show ?thesis
      by (simp add: transformation_example_def transformation_params_def particle_at_def)
  qed
  have n: "numCells (transformation_example e vx) = 0" for e vx
    by (simp add: transformation_example_def)
  have "\<exists>d'. processingTransformation_body transformation_params kinetic live_cell
              (transformation_example 10 0) 0 = Inr d'
        \<and> \<not> alive (particles d' 0) \<and> numCells d' = 1"
    using transformation_step [OF h, of transformation_params kinetic live_cell 10 0] c1 n
    by auto
  moreover have "\<exists>d'. processingTransformation_body transformation_params kinetic live_cell
              (transformation_example 9 0) 0 = Inr d'
        \<and> particles d' = particles (transformation_example 9 0) \<and> numCells d' = 0"
    using transformation_step [OF h, of transformation_params kinetic live_cell 9 0] c2 n
    by auto
  ultimately show ?thesis
    using h by simp
qed

subsection \<open>Data copy\<close>

lemma processingDataCopy_body_char:
  assumes "particlePointers d i \<noteq> None"
  shows "processingDataCopy_body d i
     = Inr (d\<lparr>cells := (\<lambda>c. (cells d c)\<lparr>cell_energy := absorb d c (cell_energy (cells d c)) i\<rparr>),
             particlePointers := (particlePointers d)(i := if removed d i then None else particlePointers d i)\<rparr>)"
proof -
  obtain p where p: "particlePointers d i = Some p"
    using assms by auto
  have same: "(particlePointers d)(i := Some p) = particlePointers d"
    using p by auto
  have cs: "(\<lambda>c. (cells d c)\<lparr>cell_energy := cell_energy (cells d c)\<rparr>) = cells d"
    by simp
  show ?thesis
  proof (cases "alive (particles d p)")
    case False
    have bd: "processingDataCopy_body d i
        = Inr (d\<lparr>particlePointers := (particlePointers d)(i := None)\<rparr>)"
      using p False by (simp add: processingDataCopy_body_def)
    have rm: "removed d i"
      using p False by (simp add: removed_def)
    have "(\<lambda>c. (cells d c)\<lparr>cell_energy := absorb d c (cell_energy (cells d c)) i\<rparr>) = cells d"
      using p False by (simp add: absorb_def)
    then show ?thesis
      unfolding bd using rm by simp
  next
    case True
    show ?thesis
    proof (cases "on_live_cell d p")
      case None
      have bd: "processingDataCopy_body d i = Inr d"
        using p True None
        by (auto simp: processingDataCopy_body_def on_live_cell_def split: option.splits if_splits)
      have rm: "\<not> removed d i"
        using p True None by (simp add: removed_def)
      have "(\<lambda>c. (cells d c)\<lparr>cell_energy := absorb d c (cell_energy (cells d c)) i\<rparr>) = cells d"
        using p None by (simp add: absorb_def)
      then show ?thesis
        unfolding bd using rm by simp
    next
      case (Some cell)
      then have c: "cellMap d (absPos (particles d p)) = Some cell" "cell_alive (cells d cell)"
        by (auto simp: on_live_cell_def split: option.splits if_splits)
      have bd: "processingDataCopy_body d i
        = Inr (d\<lparr>cells := (cells d)(cell := (cells d cell)
                   \<lparr>cell_energy := fadd (cell_energy (cells d cell)) (energy (particles d p))\<rparr>),
                 particlePointers := (particlePointers d)(i := None)\<rparr>)"
        using p True c by (simp add: processingDataCopy_body_def Let_def)
      have rm: "removed d i"
        using p Some by (simp add: removed_def)
      have "(\<lambda>c. (cells d c)\<lparr>cell_energy := absorb d c (cell_energy (cells d c)) i\<rparr>)
            = (cells d)(cell := (cells d cell)
                   \<lparr>cell_energy := fadd (cell_energy (cells d cell)) (energy (particles d p))\<rparr>)"
        by (rule ext) (use p True Some in \<open>simp add: absorb_def\<close>)
      then show ?thesis
        unfolding bd using rm by simp
    qed
  qed
qed

lemma dataCopy_frame:
  assumes "particles d1 = particles d" and "cellMap d1 = cellMap d"
    and "\<forall>c. cell_alive (cells d1 c) = cell_alive (cells d c)"
    and "particlePointers d1 j = particlePointers d j"
  shows "removed d1 j = removed d j" and "absorb d1 c e j = absorb d c e j"
  using assms by (auto simp: removed_def absorb_def on_live_cell_def split: option.splits)

lemma processingDataCopy_loop_char:
  assumes "\<forall>j. i \<le> j \<and> j \<le> e \<longrightarrow> particlePointers d j \<noteq> None"
  shows "particle_loop processingDataCopy_body i e d
     = Inr (d\<lparr>cells := (\<lambda>c. (cells d c)
                \<lparr>cell_energy := foldl (absorb d c) (cell_energy (cells d c)) [i..e]\<rparr>),
             particlePointers := (\<lambda>j. if i \<le> j \<and> j \<le> e \<and> removed d j then None
                                       else particlePointers d j)\<rparr>)"
  using assms
proof (induction processingDataCopy_body i e d rule: particle_loop.induct)
  case (1 i e d)
  show ?case
  proof (cases "i \<le> e")
    case False
    have "(\<lambda>j. if i \<le> j \<and> j \<le> e \<and> removed d j then None else particlePointers d j)
        = particlePointers d"
      by (rule ext) (use False in auto)
    then show ?thesis
      using False by (simp add: particle_loop_done)
  next
    case True
    let ?d1 = "d\<lparr>cells := (\<lambda>c. (cells d c)\<lparr>cell_energy := absorb d c (cell_energy (cells d c)) i\<rparr>),
             particlePointers := (particlePointers d)(i := if removed d i then None else particlePointers d i)\<rparr>"
    have "particlePointers d i \<noteq> None"
      using "1.prems" True by simp
    then have b: "processingDataCopy_body d i = Inr ?d1"
      by (rule processingDataCopy_body_char)
    have other: "particlePointers ?d1 j = particlePointers d j" if "j \<noteq> i" for j
      using that by simp
    have nn: "\<forall>j. i + 1 \<le> j \<and> j \<le> e \<longrightarrow> particlePointers ?d1 j \<noteq> None"
      using "1.prems" by auto
    have r: "particle_loop processingDataCopy_body (i + 1) e ?d1
       = Inr (?d1\<lparr>cells := (\<lambda>c. (cells ?d1 c)
                \<lparr>cell_energy := foldl (absorb ?d1 c) (cell_energy (cells ?d1 c)) [i + 1..e]\<rparr>),
             particlePointers := (\<lambda>j. if i + 1 \<le> j \<and> j \<le> e \<and> removed ?d1 j then None
                                       else particlePointers ?d1 j)\<rparr>)"
      using "1.hyps" [OF True b nn] .
    have loop: "particle_loop processingDataCopy_body i e d
        = particle_loop processingDataCopy_body (i + 1) e ?d1"
      using True b by (simp add: particle_loop_step)
    have rm: "removed ?d1 j = removed d j" if "j \<noteq> i" for j
      by (rule dataCopy_frame(1)) (use that in simp_all)
    have ab: "absorb ?d1 c x j = absorb d c x j" if "j \<noteq> i" for j c x
      by (rule dataCopy_frame(2)) (use that in simp_all)
    have folds: "foldl (absorb ?d1 c) x [i + 1..e] = foldl (absorb d c) x [i + 1..e]" for c x
      by (rule foldl_cong) (auto simp: ab)
    have up: "[i..e] = i # [i + 1..e]"
      using True by (simp add: upto_rec1)
    have pp: "(\<lambda>j. if i + 1 \<le> j \<and> j \<le> e \<and> removed ?d1 j then None else particlePointers ?d1 j)
           = (\<lambda>j. if i \<le> j \<and> j \<le> e \<and> removed d j then None else particlePointers d j)"
    proof
      fix j
      show "(if i + 1 \<le> j \<and> j \<le> e \<and> removed ?d1 j then None else particlePointers ?d1 j)
           = (if i \<le> j \<and> j \<le> e \<and> removed d j then None else particlePointers d j)"
      proof (cases "j = i")
        case True
        then show ?thesis
          using \<open>i \<le> e\<close> by simp
      next
        case False
        then show ?thesis
          using rm [OF False] other [OF False] by auto
      qed
    qed
    have cc: "(\<lambda>c. (cells ?d1 c)\<lparr>cell_energy := foldl (absorb ?d1 c) (cell_energy (cells ?d1 c)) [i + 1..e]\<rparr>)
           = (\<lambda>c. (cells d c)\<lparr>cell_energy := foldl (absorb d c) (cell_energy (cells d c)) [i..e]\<rparr>)"
      by (rule ext) (simp add: folds up)
    show ?thesis
      unfolding loop r pp cc by simp
  qed
qed

lemma upto_0_2: "[0..2] = [0, 1, 2::int]"
  by (simp add: upto_rec1)

lemma dataCopy_example_facts:
  "removed dataCopy_example 0" "\<not> removed dataCopy_example 1" "removed dataCopy_example 2"
  "particlePointers dataCopy_example 1 = Some 1"
  "foldl (absorb dataCopy_example 0) (cell_energy (cells dataCopy_example 0)) [0..2] = Finite 12"
  "alive (particles dataCopy_example 0)"
  "energy (particles dataCopy_example 0) = Finite 7"
  "energy (particles dataCopy_example 1) = Finite 3"
  "alive (particles dataCopy_example 1)"
proof -
  have "fadd (Finite 5) (Finite 7) = Finite 12"
    by code_simp
  then show "foldl (absorb dataCopy_example 0) (cell_energy (cells dataCopy_example 0)) [0..2] = Finite 12"
    by (simp add: upto_0_2 absorb_def on_live_cell_def dataCopy_example_def particle_at_def)
qed (simp_all add: removed_def on_live_cell_def dataCopy_example_def particle_at_def)

text \<open>
  C7 as the claim states it: a live particle on a live cell gives its energy to the cell and
  is marked dead. The pass takes the particle out of the pointer array and writes neither
  its liveness flag nor its energy: of the three elements of the example (a live particle of
  energy 7 on a live cell of energy 5, a live particle elsewhere, a dead particle) the first
  and the third are cleared and the cell ends with 12, and the first particle is still alive
  and still holds 7.
\<close>

theorem data_copy_leaves_particle_alive:
  "processingDataCopy_gridCall \<lparr>startIndex = 0, endIndex = 2\<rparr> dataCopy_example
     = Inr (dataCopy_example
         \<lparr>cells := (cells dataCopy_example)
            (0 := \<lparr>cell_absPos = (Finite 1, Finite 1), cell_vel = (Finite 0, Finite 0),
                   cell_energy = Finite 12, cell_alive = True\<rparr>),
          particlePointers := (particlePointers dataCopy_example)(0 := None, 2 := None)\<rparr>)
   \<and> alive (particles dataCopy_example 0)
   \<and> energy (particles dataCopy_example 0) = Finite 7"
proof -
  have f: "fadd (Finite 5) (Finite 7) = Finite 12"
    by code_simp
  have "processingDataCopy_gridCall \<lparr>startIndex = 0, endIndex = 2\<rparr> dataCopy_example
     = Inr (dataCopy_example
         \<lparr>cells := (cells dataCopy_example)
            (0 := \<lparr>cell_absPos = (Finite 1, Finite 1), cell_vel = (Finite 0, Finite 0),
                   cell_energy = Finite 12, cell_alive = True\<rparr>),
          particlePointers := (particlePointers dataCopy_example)(0 := None, 2 := None)\<rparr>)"
    by (simp add: processingDataCopy_gridCall_def particle_loop.simps processingDataCopy_body_def
        dataCopy_example_def particle_at_def f Let_def)
  then show ?thesis
    using dataCopy_example_facts(6,7) by simp
qed

text \<open>
  C7, amended. Over a block whose array elements are not null, the data copy returns and
  leaves the data as they were but for the pointer array and the energies of the cells:
  every element whose particle is alive and lies on a live cell adds the energy of its
  particle to that cell with a float addition (a cell ends with its energy and the energies
  of all such elements of the block added to it one after the other in the order of the
  array) and is cleared, which removes the particle from the next generation; the elements
  of dead particles are cleared too; an element whose live particle lies on no live cell
  stays. No particle is written: an absorbed particle keeps its liveness flag and its
  energy, and a live particle without a live cell keeps its energy and stays alive.
\<close>

theorem data_copy_absorbs:
  assumes "list_all (\<lambda>j. particlePointers d j \<noteq> None) [startIndex b..endIndex b]"
  shows "processingDataCopy_gridCall b d
     = Inr (d\<lparr>cells := (\<lambda>c. (cells d c)
                \<lparr>cell_energy := foldl (absorb d c) (cell_energy (cells d c))
                                   [startIndex b..endIndex b]\<rparr>),
             particlePointers := (\<lambda>j. if startIndex b \<le> j \<and> j \<le> endIndex b \<and> removed d j
                                       then None else particlePointers d j)\<rparr>)"
proof -
  have "\<forall>j. startIndex b \<le> j \<and> j \<le> endIndex b \<longrightarrow> particlePointers d j \<noteq> None"
    using assms by (simp add: list_all_iff)
  from processingDataCopy_loop_char [OF this] show ?thesis
    unfolding processingDataCopy_gridCall_def .
qed

theorem data_copy_absorbs_witness:
  "list_all (\<lambda>j. particlePointers dataCopy_example j \<noteq> None) [0..2]
   \<and> (\<exists>d'. processingDataCopy_gridCall \<lparr>startIndex = 0, endIndex = 2\<rparr> dataCopy_example = Inr d'
        \<and> particlePointers d' 0 = None
        \<and> particlePointers d' 1 = Some 1
        \<and> particlePointers d' 2 = None
        \<and> cell_energy (cells d' 0) = Finite 12
        \<and> energy (particles d' 1) = Finite 3 \<and> alive (particles d' 1))"
proof -
  let ?b = "\<lparr>startIndex = 0, endIndex = 2\<rparr>"
  have h: "list_all (\<lambda>j. particlePointers dataCopy_example j \<noteq> None) [startIndex ?b..endIndex ?b]"
    by (simp add: upto_0_2 dataCopy_example_def)
  have s: "startIndex ?b = 0" "endIndex ?b = 2"
    by simp_all
  show ?thesis
    unfolding data_copy_absorbs [OF h] s
    using h dataCopy_example_facts by simp
qed

subsection \<open>Dead is terminal\<close>

lemma never_revived_refl: "never_revived d d"
  unfolding never_revived_def by blast

lemma never_revived_trans:
  assumes "never_revived a b" and "never_revived b c"
  shows "never_revived a c"
proof -
  have 1: "\<forall>p. \<not> alive (particles a p) \<longrightarrow> \<not> alive (particles c p)"
    using assms unfolding never_revived_def by blast
  have 2: "\<forall>j p. particlePointers c j = Some p \<longrightarrow> (\<exists>i. particlePointers a i = Some p)"
    using assms unfolding never_revived_def by meson
  have 3: "numCells a \<le> numCells c"
    using assms unfolding never_revived_def by (meson le_trans)
  have 4: "\<forall>x<numCells a. \<not> cell_alive (cells a x) \<longrightarrow> \<not> cell_alive (cells c x)"
    using assms unfolding never_revived_def by (meson less_le_trans)
  show ?thesis
    unfolding never_revived_def using 1 2 3 4 by blast
qed

lemma processingMovement_body_never_revived:
  "processingMovement_body mpc d j = Inr d1 \<Longrightarrow> never_revived d d1"
  by (auto simp: processingMovement_body_def never_revived_def Let_def split: option.splits if_splits)

lemma processingCollision_body_never_revived:
  "processingCollision_body d j = Inr d1 \<Longrightarrow> never_revived d d1"
  by (auto simp: processingCollision_body_def never_revived_def Let_def DoubleLock_tryLock_def
      DoubleLock_releaseLock_def split: option.splits if_splits)

lemma processingTransformation_body_never_revived:
  assumes "processingTransformation_body params lke newCell d j = Inr d1"
  shows "never_revived d d1"
proof -
  obtain p where p: "particlePointers d j = Some p"
    using assms by (auto simp: processingTransformation_body_def split: option.splits)
  show ?thesis
    using assms unfolding processingTransformation_body_char [OF p] never_revived_def
    by (auto simp: Let_def createClusterWithRandomCell_frame split: if_splits)
qed

lemma processingDataCopy_body_never_revived:
  "processingDataCopy_body d j = Inr d1 \<Longrightarrow> never_revived d d1"
  by (auto simp: processingDataCopy_body_def never_revived_def Let_def
      split: option.splits if_splits)

text \<open>The next generation holds live particles of the current one, and only those.\<close>

lemma set_map_filter: "set (List.map_filter f xs) = {y. \<exists>x\<in>set xs. f x = Some y}"
  by (induction xs) (auto simp: map_filter_simps split: option.splits)

lemma live_particles_set:
  "set (live_particles d)
     = {p. alive (particles d p) \<and> (\<exists>i<numParticlePointers d. particlePointers d (int i) = Some p)}"
  by (auto simp: live_particles_def set_map_filter)

lemma compaction_element:
  assumes "particlePointers (compaction d) j = Some p"
  shows "alive (particles d p) \<and> (\<exists>i<numParticlePointers d. particlePointers d (int i) = Some p)"
proof -
  have "p \<in> set (live_particles d)"
    using assms by (auto simp: compaction_def Let_def split: if_splits)
  then show ?thesis
    by (simp add: live_particles_set)
qed

lemma compaction_never_revived: "never_revived d (compaction d)"
proof -
  have "\<forall>j p. particlePointers (compaction d) j = Some p \<longrightarrow> (\<exists>i. particlePointers d i = Some p)"
    using compaction_element by blast
  moreover have "particles (compaction d) = particles d" "cells (compaction d) = cells d"
    "numCells (compaction d) = numCells d"
    by (simp_all add: compaction_def Let_def)
  ultimately show ?thesis
    unfolding never_revived_def by simp
qed

text \<open>After the compaction every element of the array below its number of entries holds a
  live particle.\<close>

lemma compaction_live_only:
  assumes "i < numParticlePointers (compaction d)"
  shows "\<exists>p. particlePointers (compaction d) (int i) = Some p \<and> alive (particles (compaction d) p)"
proof -
  have "live_particles d ! i \<in> set (live_particles d)"
    using assms by (simp add: compaction_def Let_def)
  then show ?thesis
    using assms by (simp add: compaction_def Let_def live_particles_set)
qed

lemma particle_loop_never_revived:
  assumes "particle_loop body i e d = Inr d'"
    and "\<And>d j d1. body d j = Inr d1 \<Longrightarrow> never_revived d d1"
  shows "never_revived d d'"
proof (rule particle_loop_invariant [where P = "never_revived d", OF assms(1)])
  show "never_revived d d"
    by (rule never_revived_refl)
next
  fix d2 j d3
  assume "never_revived d d2" and "body d2 j = Inr d3"
  then show "never_revived d d3"
    using assms(2) never_revived_trans by blast
qed

lemma run_pass_never_revived:
  assumes "run_pass mpc params lke newCell p d = Inr d'"
  shows "never_revived d d'"
proof (cases p)
  case (Pair k b)
  show ?thesis
  proof (cases k)
    case Movement
    then show ?thesis
      using assms Pair processingMovement_body_never_revived
      by (auto simp: processingMovement_gridCall_def intro: particle_loop_never_revived)
  next
    case Collision
    then show ?thesis
      using assms Pair processingCollision_body_never_revived
      by (auto simp: processingCollision_gridCall_def intro: particle_loop_never_revived)
  next
    case Transformation
    then show ?thesis
      using assms Pair processingTransformation_body_never_revived
      by (auto simp: processingTransformation_gridCall_def intro: particle_loop_never_revived)
  next
    case DataCopy
    then show ?thesis
      using assms Pair processingDataCopy_body_never_revived
      by (auto simp: processingDataCopy_gridCall_def intro: particle_loop_never_revived)
  next
    case Compaction
    then show ?thesis
      using assms Pair compaction_never_revived by auto
  qed
qed

lemma run_passes_never_revived:
  "run_passes mpc params lke newCell ps d = Inr d' \<Longrightarrow> never_revived d d'"
proof (induction ps arbitrary: d)
  case Nil
  then show ?case
    by (simp add: never_revived_refl)
next
  case (Cons p ps)
  then obtain d1 where "run_pass mpc params lke newCell p d = Inr d1"
    and "run_passes mpc params lke newCell ps d1 = Inr d'"
    by (auto split: sum.splits)
  then show ?case
    using Cons.IH run_pass_never_revived never_revived_trans by blast
qed

lemma processingMovement_body_returns:
  "particlePointers d j \<noteq> None
    \<Longrightarrow> \<exists>d1. processingMovement_body mpc d j = Inr d1 \<and> particlePointers d1 = particlePointers d"
  by (auto simp: processingMovement_body_def Let_def)

lemma processingCollision_body_returns:
  "particlePointers d j \<noteq> None
    \<Longrightarrow> \<exists>d1. processingCollision_body d j = Inr d1 \<and> particlePointers d1 = particlePointers d"
  by (auto simp: processingCollision_body_def Let_def DoubleLock_tryLock_def split: option.splits)

lemma processingTransformation_body_returns:
  assumes "particlePointers d j \<noteq> None"
  shows "\<exists>d1. processingTransformation_body params lke newCell d j = Inr d1
          \<and> particlePointers d1 = particlePointers d"
proof -
  obtain p where p: "particlePointers d j = Some p"
    using assms by auto
  show ?thesis
    unfolding processingTransformation_body_char [OF p]
    by (simp add: Let_def createClusterWithRandomCell_frame)
qed

text \<open>The passes in the order of a timestep, over one block whose array elements are not
  null, return.\<close>

lemma timestep_passes_return:
  assumes "\<forall>j. startIndex b \<le> j \<and> j \<le> endIndex b \<longrightarrow> particlePointers d j \<noteq> None"
  shows "\<exists>d'. run_passes mpc params lke newCell
           [(Movement, b), (Collision, b), (Transformation, b), (DataCopy, b), (Compaction, b)] d
         = Inr d'"
proof -
  obtain d1 where r1: "processingMovement_gridCall mpc b d = Inr d1"
    and p1: "particlePointers d1 = particlePointers d"
    using particle_loop_returns
      [where body = "processingMovement_body mpc", OF processingMovement_body_returns assms]
    by (auto simp: processingMovement_gridCall_def)
  have a1: "\<forall>j. startIndex b \<le> j \<and> j \<le> endIndex b \<longrightarrow> particlePointers d1 j \<noteq> None"
    using assms p1 by simp
  obtain d2 where r2: "processingCollision_gridCall b d1 = Inr d2"
    and p2: "particlePointers d2 = particlePointers d1"
    using particle_loop_returns
      [where body = processingCollision_body, OF processingCollision_body_returns a1]
    by (auto simp: processingCollision_gridCall_def)
  have a2: "\<forall>j. startIndex b \<le> j \<and> j \<le> endIndex b \<longrightarrow> particlePointers d2 j \<noteq> None"
    using a1 p2 by simp
  obtain d3 where r3: "processingTransformation_gridCall params lke newCell b d2 = Inr d3"
    and p3: "particlePointers d3 = particlePointers d2"
    using particle_loop_returns
      [where body = "processingTransformation_body params lke newCell",
        OF processingTransformation_body_returns a2]
    by (auto simp: processingTransformation_gridCall_def)
  have a3: "\<forall>j. startIndex b \<le> j \<and> j \<le> endIndex b \<longrightarrow> particlePointers d3 j \<noteq> None"
    using a2 p3 by simp
  obtain d4 where r4: "processingDataCopy_gridCall b d3 = Inr d4"
    using processingDataCopy_loop_char [OF a3] by (auto simp: processingDataCopy_gridCall_def)
  show ?thesis
    using r1 r2 r3 r4 by simp
qed

text \<open>
  C8. Whatever passes (movement, collision, transformation, data copy, compaction) run, in
  whatever order and over whatever blocks: a particle that is dead before is dead after;
  every particle the pointer array holds after was in the array before, so a particle that
  a pass excluded from the generation is not taken up again; and a dead cell of the arena
  stays dead. The only writes to a liveness flag are \<open>alive = false\<close>.
\<close>

theorem dead_is_terminal:
  assumes "run_passes mpc params lke newCell ps d = Inr d'"
  shows "(\<forall>p. \<not> alive (particles d p) \<longrightarrow> \<not> alive (particles d' p))
       \<and> (\<forall>j p. particlePointers d' j = Some p \<longrightarrow> (\<exists>i. particlePointers d i = Some p))
       \<and> (\<forall>c<numCells d. \<not> cell_alive (cells d c) \<longrightarrow> \<not> cell_alive (cells d' c))"
  using run_passes_never_revived [OF assms] by (simp add: never_revived_def)

theorem dead_is_terminal_witness:
  "\<not> alive (particles dataCopy_example 2)
   \<and> (\<exists>d'. run_passes (\<lambda>pos. pos) transformation_params kinetic live_cell
       [(Movement, \<lparr>startIndex = 0, endIndex = 2\<rparr>), (Collision, \<lparr>startIndex = 0, endIndex = 2\<rparr>),
        (Transformation, \<lparr>startIndex = 0, endIndex = 2\<rparr>), (DataCopy, \<lparr>startIndex = 0, endIndex = 2\<rparr>),
        (Compaction, \<lparr>startIndex = 0, endIndex = 2\<rparr>)]
       dataCopy_example = Inr d'
      \<and> \<not> alive (particles d' 2))"
proof -
  let ?b = "\<lparr>startIndex = 0, endIndex = 2\<rparr>"
  have h: "\<not> alive (particles dataCopy_example 2)"
    by (simp add: dataCopy_example_def particle_at_def)
  have nn: "\<forall>j. startIndex ?b \<le> j \<and> j \<le> endIndex ?b \<longrightarrow> particlePointers dataCopy_example j \<noteq> None"
    by (simp add: dataCopy_example_def)
  obtain d' where r: "run_passes (\<lambda>pos. pos) transformation_params kinetic live_cell
       [(Movement, ?b), (Collision, ?b), (Transformation, ?b), (DataCopy, ?b), (Compaction, ?b)]
       dataCopy_example = Inr d'"
    using timestep_passes_return [OF nn] by blast
  show ?thesis
    using dead_is_terminal [OF r] h r by blast
qed

section \<open>Properties of the facade\<close>

subsection \<open>Advancing a timestep\<close>

text \<open>A resize that returns leaves the timestep counter alone and the device resized; it
  returns when the device reports no error at any of its checks.\<close>

lemma resizeArrays_char:
  "resizeArrays drv \<lparr>cellArraySize = 0, particleArraySize = 0, tokenArraySize = 0\<rparr> f
     = (let dev = resizeEntitiesForCleanup drv
                    \<lparr>cellArraySize = 0, particleArraySize = 0, tokenArraySize = 0\<rparr> (device f)
        in if \<not> isEmpty drv dev \<and> cudaGetLastError drv (copyArrays drv dev) then Inl CudaError
           else if \<not> isEmpty drv dev \<and> cudaGetLastError drv (resized_entities drv (device f))
           then Inl CudaError
           else if cudaGetLastError drv (reacquired_transfer drv (resized_entities drv (device f)))
           then Inl CudaError
           else Inr (f\<lparr>device := reacquired_transfer drv (resized_entities drv (device f))\<rparr>))"
  by (simp add: resizeArrays_def syncAndCheck_def resized_entities_def reacquired_transfer_def
      Let_def)

lemma resizeArrays_returns:
  assumes "resizeArrays drv \<lparr>cellArraySize = 0, particleArraySize = 0, tokenArraySize = 0\<rparr> f = Inr f'"
  shows "f' = f\<lparr>device := reacquired_transfer drv (resized_entities drv (device f))\<rparr>"
  using assms unfolding resizeArrays_char by (simp add: Let_def split: if_splits)

text \<open>A call returns when the device reports no error after the kernels and no resize is
  due; it then leaves the device as the kernels left it.\<close>

lemma calcTimestep_returns:
  assumes "\<not> cudaGetLastError drv (calcTimestep_kernel drv (device f))"
    and "currentTimestep f mod 10 \<noteq> 0 \<or> \<not> isArrayResizeNeeded drv (calcTimestep_kernel drv (device f))"
  shows "calcTimestep drv f
     = Inr (f\<lparr>device := calcTimestep_kernel drv (device f), currentTimestep := currentTimestep f + 1\<rparr>)"
  using assms
  by (auto simp: calcTimestep_def syncAndCheck_def automaticResizeArrays_def Let_def)

text \<open>A call that finds the counter at a multiple of 10 and the signal set returns when the
  device reports no error at any check, with the device resized.\<close>

lemma calcTimestep_resizes:
  assumes "currentTimestep f mod 10 = 0"
    and "isArrayResizeNeeded drv (calcTimestep_kernel drv (device f))"
    and "\<not> cudaGetLastError drv (calcTimestep_kernel drv (device f))"
    and "\<not> cudaGetLastError drv (copyArrays drv (resizeEntitiesForCleanup drv
            \<lparr>cellArraySize = 0, particleArraySize = 0, tokenArraySize = 0\<rparr>
            (calcTimestep_kernel drv (device f))))"
    and "\<not> cudaGetLastError drv (resized_entities drv (calcTimestep_kernel drv (device f)))"
    and "\<not> cudaGetLastError drv
          (reacquired_transfer drv (resized_entities drv (calcTimestep_kernel drv (device f))))"
  shows "calcTimestep drv f
     = Inr (f\<lparr>device := reacquired_transfer drv (resized_entities drv (calcTimestep_kernel drv (device f))),
             currentTimestep := currentTimestep f + 1\<rparr>)"
proof -
  let ?f1 = "f\<lparr>device := calcTimestep_kernel drv (device f)\<rparr>"
  have "resizeArrays drv \<lparr>cellArraySize = 0, particleArraySize = 0, tokenArraySize = 0\<rparr> ?f1
      = Inr (?f1\<lparr>device := reacquired_transfer drv (resized_entities drv (device ?f1))\<rparr>)"
    unfolding resizeArrays_char using assms(4,5,6) by (simp add: Let_def)
  then show ?thesis
    using assms(1,2,3)
    by (simp add: calcTimestep_def syncAndCheck_def automaticResizeArrays_def Let_def)
qed

text \<open>
  C9. Every call of \<open>calcTimestep\<close> that returns (the device has reported no error) advances
  the timestep by exactly one. The overflow signal decides about a resize exactly on the
  calls that find the timestep counter at a multiple of 10. There, when the signal is set,
  the arrays of the entities are resized (\<open>resizeEntitiesForCleanup\<close> with no additional
  sizes, then \<open>resizeRemainings\<close>, with \<open>copyArrays\<close> before it and \<open>swapArrays\<close> after it
  unless the simulation is empty) and the four transfer arrays are freed and acquired anew
  in the sizes of the resized arrays; when it is not set, and on every other call whatever
  the signal says, the device is left as the kernels left it.
\<close>

theorem calcTimestep_advances:
  assumes "calcTimestep drv f = Inr f'"
  shows "currentTimestep f' = currentTimestep f + 1
     \<and> \<not> cudaGetLastError drv (calcTimestep_kernel drv (device f))
     \<and> device f'
       = (let dev = calcTimestep_kernel drv (device f) in
          if currentTimestep f mod 10 = 0 \<and> isArrayResizeNeeded drv dev then
            let dev = resizeEntitiesForCleanup drv
                        \<lparr>cellArraySize = 0, particleArraySize = 0, tokenArraySize = 0\<rparr> dev;
                dev = (if isEmpty drv dev then resizeRemainings drv dev
                       else swapArrays drv (resizeRemainings drv (copyArrays drv dev)));
                dev = freeMemory drv TO_stringBytes (freeMemory drv TO_tokens
                        (freeMemory drv TO_particles (freeMemory drv TO_cells dev)));
                c = cells_getSize_host drv dev;
                t = tokens_getSize_host drv dev
            in acquireMemory drv TO_stringBytes (MAX_STRING_BYTES drv)
                 (acquireMemory drv TO_tokens t
                    (acquireMemory drv TO_particles c (acquireMemory drv TO_cells c dev)))
          else dev)"
proof -
  let ?f1 = "f\<lparr>device := calcTimestep_kernel drv (device f)\<rparr>"
  have ok: "\<not> cudaGetLastError drv (calcTimestep_kernel drv (device f))"
    using assms by (auto simp: calcTimestep_def syncAndCheck_def Let_def split: if_splits)
  then obtain f2 where a: "automaticResizeArrays drv ?f1 = Inr f2"
    and f': "f' = f2\<lparr>currentTimestep := currentTimestep f2 + 1\<rparr>"
    using assms by (auto simp: calcTimestep_def syncAndCheck_def Let_def split: sum.splits)
  show ?thesis
  proof (cases "currentTimestep f mod 10 = 0 \<and> isArrayResizeNeeded drv (calcTimestep_kernel drv (device f))")
    case True
    then have r: "resizeArrays drv \<lparr>cellArraySize = 0, particleArraySize = 0, tokenArraySize = 0\<rparr> ?f1
        = Inr f2"
      using a by (simp add: automaticResizeArrays_def)
    have "f2 = ?f1\<lparr>device := reacquired_transfer drv (resized_entities drv (device ?f1))\<rparr>"
      using resizeArrays_returns [OF r] .
    then show ?thesis
      using True ok f' by (simp add: resized_entities_def reacquired_transfer_def Let_def)
  next
    case False
    then have "f2 = ?f1"
      using a by (auto simp: automaticResizeArrays_def split: if_splits)
    then show ?thesis
      using False ok f' by auto
  qed
qed

theorem calcTimestep_advances_witness:
  "calcTimestep resize_driver
       \<lparr>currentTimestep = 20, device = \<lparr>capacity = 4, overflow = False, transfer = [(TO_cells, 4)]\<rparr>\<rparr>
     = Inr \<lparr>currentTimestep = 21,
            device = \<lparr>capacity = 8, overflow = False,
                      transfer = [(TO_cells, 8), (TO_particles, 8), (TO_tokens, 4),
                                  (TO_stringBytes, 100)]\<rparr>\<rparr>
   \<and> calcTimestep resize_driver
       \<lparr>currentTimestep = 7, device = \<lparr>capacity = 4, overflow = False, transfer = [(TO_cells, 4)]\<rparr>\<rparr>
     = Inr \<lparr>currentTimestep = 8,
            device = \<lparr>capacity = 4, overflow = True, transfer = [(TO_cells, 4)]\<rparr>\<rparr>
   \<and> currentTimestep \<lparr>currentTimestep = 21 :: 64 word,
        device = \<lparr>capacity = 8, overflow = False,
                  transfer = [(TO_cells, 8), (TO_particles, 8), (TO_tokens, 4),
                              (TO_stringBytes, 100)]\<rparr>\<rparr> = 20 + 1
   \<and> device \<lparr>currentTimestep = 8 :: 64 word,
        device = \<lparr>capacity = 4, overflow = True, transfer = [(TO_cells, 4)]\<rparr>\<rparr>
     = calcTimestep_kernel resize_driver
         \<lparr>capacity = 4, overflow = False, transfer = [(TO_cells, 4)]\<rparr>"
proof -
  have h1: "calcTimestep resize_driver
       \<lparr>currentTimestep = 20, device = \<lparr>capacity = 4, overflow = False, transfer = [(TO_cells, 4)]\<rparr>\<rparr>
     = Inr \<lparr>currentTimestep = 21,
            device = \<lparr>capacity = 8, overflow = False,
                      transfer = [(TO_cells, 8), (TO_particles, 8), (TO_tokens, 4),
                                  (TO_stringBytes, 100)]\<rparr>\<rparr>"
    by (simp add: calcTimestep_def syncAndCheck_def automaticResizeArrays_def resizeArrays_def
        resize_driver_def Let_def)
  have h2: "calcTimestep resize_driver
       \<lparr>currentTimestep = 7, device = \<lparr>capacity = 4, overflow = False, transfer = [(TO_cells, 4)]\<rparr>\<rparr>
     = Inr \<lparr>currentTimestep = 8,
            device = \<lparr>capacity = 4, overflow = True, transfer = [(TO_cells, 4)]\<rparr>\<rparr>"
    by (simp add: calcTimestep_def syncAndCheck_def automaticResizeArrays_def resizeArrays_def
        resize_driver_def Let_def)
  have "currentTimestep \<lparr>currentTimestep = 21 :: 64 word,
        device = \<lparr>capacity = 8, overflow = False,
                  transfer = [(TO_cells, 8), (TO_particles, 8), (TO_tokens, 4),
                              (TO_stringBytes, 100)]\<rparr>\<rparr> = 20 + 1"
    using calcTimestep_advances [OF h1] by simp
  moreover have "device \<lparr>currentTimestep = 8 :: 64 word,
        device = \<lparr>capacity = 4, overflow = True, transfer = [(TO_cells, 4)]\<rparr>\<rparr>
     = calcTimestep_kernel resize_driver
         \<lparr>capacity = 4, overflow = False, transfer = [(TO_cells, 4)]\<rparr>"
    using calcTimestep_advances [OF h2] by (simp add: Let_def)
  ultimately show ?thesis
    using h1 h2 by simp
qed

subsection \<open>Export of inspected entities\<close>

lemma fill_values_char:
  assumes "i \<le> length entityIds" and "length entityIds \<le> length vals"
    and "take i vals = take i entityIds"
  shows "fill_values entityIds vals i = entityIds @ drop (length entityIds) vals"
  using assms
proof (induction entityIds vals i rule: fill_values.induct)
  case (1 entityIds vals i)
  show ?case
  proof (cases "i < length entityIds")
    case False
    then have "i = length entityIds"
      using "1.prems"(1) by simp
    then have "take (length entityIds) vals = entityIds"
      using "1.prems"(3) by simp
    then have "vals = entityIds @ drop (length entityIds) vals"
      by (metis append_take_drop_id)
    then show ?thesis
      using False by (subst fill_values.simps) simp
  next
    case True
    let ?vals = "vals[i := entityIds ! i]"
    have t: "take (i + 1) ?vals = take (i + 1) entityIds"
      using True "1.prems"(2,3)
      by (simp add: take_Suc_conv_app_nth)
    have "fill_values entityIds ?vals (i + 1) = entityIds @ drop (length entityIds) ?vals"
      using True "1.prems"(2) t by (intro "1.IH") auto
    moreover have "drop (length entityIds) ?vals = drop (length entityIds) vals"
      using True by simp
    ultimately show ?thesis
      using True by (subst fill_values.simps) simp
  qed
qed

text \<open>
  C10. With more ids than \<open>MaxInspectedEntities\<close> the function returns at once: the facade
  (and so the device: no kernel has run) and the caller's transfer structure are as they
  were, and no error is raised. With fewer ids than the maximum the array handed to the
  kernel holds the ids followed by 0. (With exactly the maximum the array is full: it holds
  the ids, and there is no room for a 0.)
\<close>

theorem getInspectedSimulationData_ids:
  assumes "length uninit = MaxInspectedEntities"
  shows "(if length entityIds > MaxInspectedEntities
          then getInspectedSimulationData drv MaxInspectedEntities uninit entityIds dataTO f
                 = Inr (dataTO, f)
          else if length entityIds < MaxInspectedEntities
          then \<exists>ids. length ids = MaxInspectedEntities
                 \<and> take (length entityIds) ids = entityIds
                 \<and> ids ! length entityIds = 0
                 \<and> getInspectedSimulationData drv MaxInspectedEntities uninit entityIds dataTO f
                     = (case syncAndCheck drv (f\<lparr>device := getInspectedData_kernel drv ids (device f)\<rparr>) of
                          Inl e \<Rightarrow> Inl e
                        | Inr f' \<Rightarrow> Inr (copyToHost drv (device f') dataTO, f'))
          else getInspectedSimulationData drv MaxInspectedEntities uninit entityIds dataTO f
                 = (case syncAndCheck drv (f\<lparr>device := getInspectedData_kernel drv entityIds (device f)\<rparr>) of
                      Inl e \<Rightarrow> Inl e
                    | Inr f' \<Rightarrow> Inr (copyToHost drv (device f') dataTO, f')))"
proof -
  let ?n = "length entityIds"
  consider (over) "?n > MaxInspectedEntities" | (under) "?n < MaxInspectedEntities"
    | (full) "?n = MaxInspectedEntities"
    by linarith
  then show ?thesis
  proof cases
    case over
    then show ?thesis
      by (simp add: getInspectedSimulationData_def)
  next
    case under
    have fv: "fill_values entityIds uninit 0 = entityIds @ drop ?n uninit"
      using under assms by (intro fill_values_char) auto
    let ?ids = "(entityIds @ drop ?n uninit)[?n := 0]"
    have l: "length ?ids = MaxInspectedEntities"
      using under assms by simp
    have t: "take ?n ?ids = entityIds"
      by simp
    have z: "?ids ! ?n = 0"
      using under assms by (simp add: nth_list_update)
    have g: "getInspectedSimulationData drv MaxInspectedEntities uninit entityIds dataTO f
        = (case syncAndCheck drv (f\<lparr>device := getInspectedData_kernel drv ?ids (device f)\<rparr>) of
             Inl e \<Rightarrow> Inl e
           | Inr f' \<Rightarrow> Inr (copyToHost drv (device f') dataTO, f'))"
      using under by (simp add: getInspectedSimulationData_def fv Let_def)
    have ex: "\<exists>ids. length ids = MaxInspectedEntities
                 \<and> take (length entityIds) ids = entityIds
                 \<and> ids ! length entityIds = 0
                 \<and> getInspectedSimulationData drv MaxInspectedEntities uninit entityIds dataTO f
                     = (case syncAndCheck drv (f\<lparr>device := getInspectedData_kernel drv ids (device f)\<rparr>) of
                          Inl e \<Rightarrow> Inl e
                        | Inr f' \<Rightarrow> Inr (copyToHost drv (device f') dataTO, f'))"
      using l t z g by (intro exI [of _ ?ids] conjI)
    have no: "\<not> length entityIds > MaxInspectedEntities"
      using under by simp
    show ?thesis
      unfolding if_not_P [OF no] if_P [OF under] by (rule ex)
  next
    case full
    have fv: "fill_values entityIds uninit 0 = entityIds"
      using full assms fill_values_char [of 0 entityIds uninit] by simp
    show ?thesis
      using full by (simp add: getInspectedSimulationData_def fv Let_def)
  qed
qed

theorem getInspectedSimulationData_ids_witness:
  "length [9, 9, 9, 9 :: 64 word] = 4
   \<and> getInspectedSimulationData example_driver 4 [9, 9, 9, 9] [1, 2, 3, 4, 5] [7]
        \<lparr>currentTimestep = 3, device = [8]\<rparr>
     = Inr ([7], \<lparr>currentTimestep = 3, device = [8]\<rparr>)
   \<and> (\<exists>ids. length ids = 4 \<and> take 2 ids = [5, 6] \<and> ids ! 2 = 0
        \<and> getInspectedSimulationData example_driver 4 [9, 9, 9, 9] [5, 6] [7]
             \<lparr>currentTimestep = 3, device = [8]\<rparr>
          = Inr (ids, \<lparr>currentTimestep = 3, device = ids\<rparr>))"
proof -
  have h: "length [9, 9, 9, 9 :: 64 word] = 4"
    by simp
  have over: "getInspectedSimulationData example_driver 4 [9, 9, 9, 9] [1, 2, 3, 4, 5] [7]
        \<lparr>currentTimestep = 3, device = [8]\<rparr>
     = Inr ([7], \<lparr>currentTimestep = 3, device = [8]\<rparr>)"
    using getInspectedSimulationData_ids
      [OF h, of "[1, 2, 3, 4, 5]" example_driver "[7]" "\<lparr>currentTimestep = 3, device = [8]\<rparr>"]
    by simp
  have "\<exists>ids. length ids = 4 \<and> take (length [5, 6 :: 64 word]) ids = [5, 6]
        \<and> ids ! length [5, 6 :: 64 word] = 0
        \<and> getInspectedSimulationData example_driver 4 [9, 9, 9, 9] [5, 6] [7]
             \<lparr>currentTimestep = 3, device = [8]\<rparr>
          = (case syncAndCheck example_driver
                (\<lparr>currentTimestep = 3, device = [8]\<rparr>
                   \<lparr>device := getInspectedData_kernel example_driver ids
                      (device \<lparr>currentTimestep = 3 :: 64 word, device = [8 :: 64 word]\<rparr>)\<rparr>) of
               Inl e \<Rightarrow> Inl e
             | Inr f' \<Rightarrow> Inr (copyToHost example_driver (device f') [7], f'))"
    using getInspectedSimulationData_ids
      [OF h, of "[5, 6]" example_driver "[7]" "\<lparr>currentTimestep = 3, device = [8]\<rparr>"]
    by simp
  then obtain ids where l: "length ids = 4"
    and t: "take (length [5, 6 :: 64 word]) ids = [5, 6]"
    and z: "ids ! length [5, 6 :: 64 word] = 0"
    and g: "getInspectedSimulationData example_driver 4 [9, 9, 9, 9] [5, 6] [7]
             \<lparr>currentTimestep = 3, device = [8]\<rparr>
          = (case syncAndCheck example_driver
                (\<lparr>currentTimestep = 3, device = [8]\<rparr>
                   \<lparr>device := getInspectedData_kernel example_driver ids
                      (device \<lparr>currentTimestep = 3 :: 64 word, device = [8 :: 64 word]\<rparr>)\<rparr>) of
               Inl e \<Rightarrow> Inl e
             | Inr f' \<Rightarrow> Inr (copyToHost example_driver (device f') [7], f'))"
    by blast
  have t2: "take 2 ids = [5, 6]"
    using t by (simp add: numeral_2_eq_2)
  have z2: "ids ! 2 = 0"
    using z by (simp add: numeral_2_eq_2)
  have d: "getInspectedData_kernel example_driver ids [8] = ids"
    "\<And>dev. cudaGetLastError example_driver dev = False"
    "\<And>dev host. copyToHost example_driver dev host = dev"
    by (simp_all add: example_driver_def)
  have g2: "getInspectedSimulationData example_driver 4 [9, 9, 9, 9] [5, 6] [7]
             \<lparr>currentTimestep = 3, device = [8]\<rparr>
          = Inr (ids, \<lparr>currentTimestep = 3, device = ids\<rparr>)"
    unfolding g by (simp add: syncAndCheck_def d)
  show ?thesis
    using h over l t2 z2 g2 by blast
qed

lemma getInspectedSimulationData_example:
  "getInspectedSimulationData example_driver 4 [9, 9, 9, 9] [5, 6] [7]
       \<lparr>currentTimestep = 3, device = [8]\<rparr>
     = Inr ([5, 6, 0, 9], \<lparr>currentTimestep = 3, device = [5, 6, 0, 9]\<rparr>)"
  by (simp add: getInspectedSimulationData_def fill_values.simps syncAndCheck_def
      example_driver_def Let_def)

end
